theory Spec2Isabelle
  imports Main "HOL-Library.Multiset"
begin

section \<open>Values, errors and asynchronous thunks\<close>

text \<open>
  The JavaScript sources (\<^verbatim>\<open>src/backend-examples.js\<close>, \<^verbatim>\<open>src/postgres.js\<close> and the
  markdown copy of the first) contain three resilience sketches: \<^verbatim>\<open>withRetry\<close>,
  \<^verbatim>\<open>class CircuitBreaker\<close> and the cache-aside readers \<^verbatim>\<open>getUser\<close> and
  \<^verbatim>\<open>cacheAsideExample\<close>. Each is embedded below as a HOL function.

  A thrown value is an \<^verbatim>\<open>Error\<close> object, identified by its message. A rejected promise
  is \<open>Inl\<close> of the error, a fulfilled one \<open>Inr\<close> of the value. JavaScript numbers are
  modelled as integers: the sources only count and multiply whole numbers, which
  JavaScript does exactly below \<open>2\<^sup>5\<^sup>3\<close>.
\<close>

datatype error = Error string

text \<open>
  A value an \<^verbatim>\<open>async\<close> function can resolve to: \<^verbatim>\<open>undefined\<close> (what a function that
  falls off its end returns) or a proper value.
\<close>

datatype 'a jsval = Undefined | Value 'a

text \<open>
  The wrapped function \<^verbatim>\<open>fn\<close> is an arbitrary asynchronous thunk: it may read and change
  the state of the outside world (type \<open>'s\<close>) and settles with an error or a value.
\<close>

type_synonym ('s, 'a) thunk = "'s \<Rightarrow> (error + 'a) \<times> 's"

text \<open>A parameter with a default value: \<open>None\<close> is an omitted argument.\<close>

definition dflt :: "'a \<Rightarrow> 'a option \<Rightarrow> 'a" where
  "dflt d arg = (case arg of None \<Rightarrow> d | Some v \<Rightarrow> v)"

section \<open>Retry strategy\<close>

text \<open>
  \<^verbatim>\<open>
  async function withRetry(fn, retries = 3, delay = 1000) {
      for (let i = 0; i < retries; i++) {
          try {
              return await fn();
          } catch (error) {
              if (i === retries - 1) throw error;
              await new Promise(r => setTimeout(r, delay * (i + 1)));  // Exponential backoff
          }
      }
  }
  \<close>
  The sources are Node.js code. Node's \<^verbatim>\<open>setTimeout(callback, delay)\<close> waits \<^verbatim>\<open>delay\<close>
  milliseconds when \<^verbatim>\<open>delay\<close> lies between 1 and \<open>2\<^sup>3\<^sup>1 - 1\<close>, and 1 millisecond otherwise.
\<close>

definition setTimeout_delay :: "int \<Rightarrow> int" where
  "setTimeout_delay delay = (if delay < 1 \<or> 2147483647 < delay then 1 else delay)"

text \<open>
  The effects of one run are recorded in a trace, in the order they happen: every
  invocation of \<^verbatim>\<open>fn\<close> and every pause, with the time waited.
  The product \<^verbatim>\<open>delay * (i + 1)\<close> of two whole numbers is exact in JavaScript below
  \<open>2\<^sup>5\<^sup>3\<close>; beyond, the rounded product still lies outside the range of \<^verbatim>\<open>setTimeout\<close>, so
  the time waited is the same.
\<close>

datatype event = Invoked | Slept int

function withRetry_loop ::
  "('s, 'a jsval) thunk \<Rightarrow> int \<Rightarrow> int \<Rightarrow> int \<Rightarrow> 's \<Rightarrow> event list
    \<Rightarrow> (error + 'a jsval) \<times> 's \<times> event list" where
  "withRetry_loop fn retries delay i s tr =
     (if i < retries then
        (case fn s of
           (Inr v, s') \<Rightarrow> (Inr v, s', tr @ [Invoked])
         | (Inl err, s') \<Rightarrow>
             if i = retries - 1 then (Inl err, s', tr @ [Invoked])
             else withRetry_loop fn retries delay (i + 1) s'
                    (tr @ [Invoked, Slept (setTimeout_delay (delay * (i + 1)))]))
      else (Inr Undefined, s, tr))"
  by pat_completeness auto
termination
  by (relation "measure (\<lambda>(fn, retries, delay, i, s, tr). nat (retries - i))") auto

declare withRetry_loop.simps [simp del]

definition withRetry ::
  "('s, 'a jsval) thunk \<Rightarrow> int option \<Rightarrow> int option \<Rightarrow> 's
    \<Rightarrow> (error + 'a jsval) \<times> 's \<times> event list" where
  "withRetry fn retries delay s =
     withRetry_loop fn (dflt 3 retries) (dflt 1000 delay) 0 s []"

text \<open>Projections of a run: what the caller gets, and the trace.\<close>

definition outcome :: "(error + 'a) \<times> 's \<times> event list \<Rightarrow> error + 'a" where
  "outcome r = fst r"

definition trace :: "(error + 'a) \<times> 's \<times> event list \<Rightarrow> event list" where
  "trace r = snd (snd r)"

text \<open>The number of times \<^verbatim>\<open>fn\<close> was invoked, and the pauses taken, in order.\<close>

definition invocations :: "event list \<Rightarrow> nat" where
  "invocations tr = length (filter (\<lambda>e. e = Invoked) tr)"

fun pauses :: "event list \<Rightarrow> int list" where
  "pauses [] = []"
| "pauses (Invoked # tr) = pauses tr"
| "pauses (Slept d # tr) = d # pauses tr"

text \<open>
  The outcome and the world of the \<open>k\<close>-th consecutive invocation of \<^verbatim>\<open>fn\<close> (counted from
  0), when nothing else touches the world in between.
\<close>

fun attempt :: "('s, 'a) thunk \<Rightarrow> nat \<Rightarrow> 's \<Rightarrow> (error + 'a) \<times> 's" where
  "attempt fn 0 s = fn s"
| "attempt fn (Suc k) s = attempt fn k (snd (fn s))"

text \<open>
  Thunks used as concrete inputs. Their world is the number of times they have been
  invoked: one always fails, one fails twice and succeeds from its third invocation on,
  one resolves to \<^verbatim>\<open>undefined\<close>.
\<close>

definition always_fails :: "(nat, int jsval) thunk" where
  "always_fails n = (Inl (Error ''boom''), Suc n)"

definition third_time_lucky :: "(nat, int jsval) thunk" where
  "third_time_lucky n =
     (if n < 2 then (Inl (Error ''boom''), Suc n) else (Inr (Value 42), Suc n))"

definition resolves_undefined :: "(nat, int jsval) thunk" where
  "resolves_undefined n = (Inr Undefined, Suc n)"

text \<open>
  The trace the loop is expected to leave when it makes \<open>m\<close> invocations, the first of
  them at loop index \<open>i\<close>: after each invocation but the last, one pause, the wait for
  \<open>delay * (index + 1)\<close>.
\<close>

fun schedule :: "int \<Rightarrow> int \<Rightarrow> nat \<Rightarrow> event list" where
  "schedule delay i 0 = []"
| "schedule delay i (Suc 0) = [Invoked]"
| "schedule delay i (Suc (Suc m)) =
     Invoked # Slept (setTimeout_delay (delay * (i + 1))) # schedule delay (i + 1) (Suc m)"

text \<open>
  All the pauses of a trace that lie between invocation \<open>i - 1\<close> (or the start, for
  \<open>i = 0\<close>) and invocation \<open>i\<close>, invocations counted from 0.
\<close>

fun pauses_before :: "event list \<Rightarrow> nat \<Rightarrow> int list" where
  "pauses_before [] i = []"
| "pauses_before (Slept d # tr) 0 = d # pauses_before tr 0"
| "pauses_before (Invoked # tr) 0 = []"
| "pauses_before (Slept d # tr) (Suc i) = pauses_before tr (Suc i)"
| "pauses_before (Invoked # tr) (Suc i) = pauses_before tr i"

section \<open>Circuit breaker\<close>

text \<open>
  \<^verbatim>\<open>
  class CircuitBreaker {
      constructor(threshold = 5, timeout = 60000) {
          this.failures = 0;
          this.threshold = threshold;
          this.timeout = timeout;
          this.state = 'CLOSED';  // CLOSED = working, OPEN = broken
      }
      async call(fn) {
          if (this.state === 'OPEN') {
              throw new Error('Circuit is OPEN');
          }
          try {
              const result = await fn();
              this.failures = 0;
              return result;
          } catch (error) {
              this.failures++;
              if (this.failures >= this.threshold) {
                  this.state = 'OPEN';
                  setTimeout(() => this.state = 'HALF-OPEN', this.timeout);
              }
              throw error;
          }
      }
  }
  \<close>
  The object has exactly the four fields the constructor assigns. The three strings the
  \<^verbatim>\<open>state\<close> field takes are a datatype.
\<close>

datatype cb_state = CLOSED | OPEN | HALF_OPEN

record CircuitBreaker =
  failures :: int
  threshold :: int
  timeout :: int
  state :: cb_state

text \<open>
  What lies outside the object: the clock, the pending \<^verbatim>\<open>setTimeout\<close> callbacks of the
  breaker (all of them are \<^verbatim>\<open>() => this.state = 'HALF-OPEN'\<close>, so a timer is its due
  time), and the world the wrapped function acts on.
\<close>

record 's event_loop =
  clock :: int
  timers :: "int list"
  origin :: 's

definition new_CircuitBreaker :: "int option \<Rightarrow> int option \<Rightarrow> CircuitBreaker" where
  "new_CircuitBreaker threshold_arg timeout_arg =
     \<lparr>failures = 0, threshold = dflt 5 threshold_arg, timeout = dflt 60000 timeout_arg,
      state = CLOSED\<rparr>"

text \<open>
  \<^verbatim>\<open>call\<close> returns the settled promise, the object after the call and the event loop
  after the call. A timer armed at clock \<open>t\<close> with delay \<open>d\<close> is due at \<open>t\<close> plus the time
  \<^verbatim>\<open>setTimeout\<close> waits for \<open>d\<close>. The awaited \<^verbatim>\<open>fn()\<close> is one step: no time passes and no
  timer fires while it is pending.
\<close>

definition call ::
  "CircuitBreaker \<Rightarrow> ('s, 'a) thunk \<Rightarrow> 's event_loop
    \<Rightarrow> (error + 'a) \<times> CircuitBreaker \<times> 's event_loop" where
  "call this fn w =
     (if state this = OPEN then (Inl (Error ''Circuit is OPEN''), this, w)
      else
        (case fn (origin w) of
           (Inr result, s') \<Rightarrow> (Inr result, this\<lparr>failures := 0\<rparr>, w\<lparr>origin := s'\<rparr>)
         | (Inl err, s') \<Rightarrow>
             (let this1 = this\<lparr>failures := failures this + 1\<rparr> in
              if failures this1 \<ge> threshold this1
              then (Inl err, this1\<lparr>state := OPEN\<rparr>,
                    w\<lparr>origin := s',
                      timers := timers w @ [clock w + setTimeout_delay (timeout this1)]\<rparr>)
              else (Inl err, this1, w\<lparr>origin := s'\<rparr>))))"

text \<open>
  The event loop runs the callbacks that are due: each sets \<^verbatim>\<open>state\<close> to
  \<^verbatim>\<open>'HALF-OPEN'\<close> and is removed. \<open>elapse\<close> lets time pass and then runs them.
\<close>

definition run_timers :: "CircuitBreaker \<times> 's event_loop \<Rightarrow> CircuitBreaker \<times> 's event_loop" where
  "run_timers bw =
     (case bw of (this, w) \<Rightarrow>
        if (\<exists>due \<in> set (timers w). due \<le> clock w)
        then (this\<lparr>state := HALF_OPEN\<rparr>, w\<lparr>timers := filter (\<lambda>due. clock w < due) (timers w)\<rparr>)
        else (this, w))"

definition elapse :: "int \<Rightarrow> CircuitBreaker \<times> 's event_loop \<Rightarrow> CircuitBreaker \<times> 's event_loop" where
  "elapse dt bw = (case bw of (this, w) \<Rightarrow> run_timers (this, w\<lparr>clock := clock w + dt\<rparr>))"

text \<open>Projections of a call's result.\<close>

definition breaker_after :: "(error + 'a) \<times> CircuitBreaker \<times> 's event_loop \<Rightarrow> CircuitBreaker" where
  "breaker_after r = fst (snd r)"

definition loop_after :: "(error + 'a) \<times> CircuitBreaker \<times> 's event_loop \<Rightarrow> 's event_loop" where
  "loop_after r = snd (snd r)"

text \<open>
  Concrete inputs: an event loop with no timer at a given time, a thunk that succeeds, and
  a breaker with threshold 2 that two failures at time 0 have opened and whose timer has
  fired 60000 ms later.
\<close>

definition idle_loop :: "int \<Rightarrow> nat event_loop" where
  "idle_loop t = \<lparr>clock = t, timers = [], origin = 0\<rparr>"

definition tripped :: "CircuitBreaker \<times> nat event_loop" where
  "tripped =
     (let r1 = call (new_CircuitBreaker (Some 2) None) always_fails (idle_loop 0);
          r2 = call (breaker_after r1) always_fails (loop_after r1)
      in elapse 60000 (breaker_after r2, loop_after r2))"

definition always_succeeds :: "(nat, int jsval) thunk" where
  "always_succeeds n = (Inr (Value 7), Suc n)"

section \<open>Cache-aside readers\<close>

text \<open>
  The two readers of the sources, \<^verbatim>\<open>getUser\<close> (\<^verbatim>\<open>src/backend-examples.js\<close>) and
  \<^verbatim>\<open>cacheAsideExample\<close> (\<^verbatim>\<open>src/postgres.js\<close>):
  \<^verbatim>\<open>
  async function getUser(id) {
      const cached = await redis.get(`user:${id}`);
      if (cached) return JSON.parse(cached);
      const user = await db.users.findById(id);
      await redis.set(`user:${id}`, JSON.stringify(user), 'EX', 3600);
      return user;
  }

  async function cacheAsideExample(userId) {
      const redis = new Redis();
      const cacheKey = `user:${userId}`;
      const cachedData = await redis.get(cacheKey);
      if (cachedData) {
          return JSON.parse(cachedData);
      }
      const user = { id: userId, name: 'From DB' }; // Access Database here
      await redis.set(cacheKey, JSON.stringify(user), 'EX', 600); // 10 mins
      return user;
  }
  \<close>
  Values, identifiers included, are JSON values: an identifier may be a number or a string.
\<close>

datatype json = JNull | JBool bool | JNum int | JStr string | JArr "json list"
  | JObj "(string \<times> json) list"

text \<open>
  What the readers call and the repository does not define. \<open>ToString\<close> is the conversion
  a template literal applies to a value. \<^verbatim>\<open>JSON.parse\<close> may throw. \<open>db_findById history id\<close>
  is how the database settles the call \<^verbatim>\<open>db.users.findById(id)\<close> when \<open>history\<close> lists the
  calls it has served before: the same identifier may be answered differently from one
  call to the next.
\<close>

record runtime =
  ToString :: "json \<Rightarrow> string"
  JSON_parse :: "string \<Rightarrow> error + json"
  JSON_stringify :: "json \<Rightarrow> string"
  db_findById :: "json list \<Rightarrow> json \<Rightarrow> error + json"

text \<open>
  The Redis server as the readers use it. An entry is a string with an optional absolute
  expiry time (in seconds); \<^verbatim>\<open>GET\<close> answers \<^verbatim>\<open>null\<close> (\<open>None\<close>) for an absent or expired
  key; \<^verbatim>\<open>SET key text EX ttl\<close> stores the string with expiry \<open>now + ttl\<close>. Either command
  may be rejected (\<open>get_fault\<close>, \<open>set_fault\<close>: the error the client then throws).
  \<open>set_log\<close> lists the \<^verbatim>\<open>SET\<close> commands the server has applied.
\<close>

record redis =
  entries :: "string \<rightharpoonup> string \<times> int option"
  now :: int
  get_fault :: "error option"
  set_fault :: "error option"
  set_log :: "(string \<times> string \<times> int) list"

definition live :: "redis \<Rightarrow> string \<Rightarrow> string option" where
  "live r k =
     (case entries r k of
        None \<Rightarrow> None
      | Some (text, None) \<Rightarrow> Some text
      | Some (text, Some expiresAt) \<Rightarrow> if now r < expiresAt then Some text else None)"

definition redis_get :: "redis \<Rightarrow> string \<Rightarrow> error + string option" where
  "redis_get r k = (case get_fault r of Some err \<Rightarrow> Inl err | None \<Rightarrow> Inr (live r k))"

definition with_entry :: "redis \<Rightarrow> string \<Rightarrow> string \<Rightarrow> int \<Rightarrow> redis" where
  "with_entry r k text ttl =
     r\<lparr>entries := (entries r)(k \<mapsto> (text, Some (now r + ttl))),
       set_log := set_log r @ [(k, text, ttl)]\<rparr>"

definition redis_set_ex :: "redis \<Rightarrow> string \<Rightarrow> string \<Rightarrow> int \<Rightarrow> error + redis" where
  "redis_set_ex r k text ttl =
     (case set_fault r of Some err \<Rightarrow> Inl err | None \<Rightarrow> Inr (with_entry r k text ttl))"

text \<open>
  The world the readers act on: the Redis server, and the identifiers of the calls the
  database has served, in order.
\<close>

record world =
  cache :: redis
  db_calls :: "json list"

text \<open>
  \<^verbatim>\<open>if (cached)\<close> tests the truthiness of a value that is a string or \<^verbatim>\<open>null\<close>: \<^verbatim>\<open>null\<close>
  and the empty string are falsy, every other string is truthy.
\<close>

definition truthy :: "string option \<Rightarrow> bool" where
  "truthy cached = (case cached of None \<Rightarrow> False | Some text \<Rightarrow> text \<noteq> [])"

text \<open>The key both readers use: \<^verbatim>\<open>`user:${id}`\<close>.\<close>

definition cacheKey :: "runtime \<Rightarrow> json \<Rightarrow> string" where
  "cacheKey rt ident = ''user:'' @ ToString rt ident"

text \<open>
  \<^verbatim>\<open>getUser\<close>. \<open>getUser_miss\<close> is the code after the early \<^verbatim>\<open>return\<close>. No statement is
  inside a \<^verbatim>\<open>try\<close>: a rejected \<^verbatim>\<open>await\<close> rejects the whole call.
\<close>

definition getUser_miss :: "runtime \<Rightarrow> json \<Rightarrow> world \<Rightarrow> (error + json) \<times> world" where
  "getUser_miss rt ident w =
     (let w1 = w\<lparr>db_calls := db_calls w @ [ident]\<rparr> in
      case db_findById rt (db_calls w) ident of
        Inl err \<Rightarrow> (Inl err, w1)
      | Inr user \<Rightarrow>
          (case redis_set_ex (cache w1) (cacheKey rt ident) (JSON_stringify rt user) 3600 of
             Inl err \<Rightarrow> (Inl err, w1)
           | Inr c \<Rightarrow> (Inr user, w1\<lparr>cache := c\<rparr>)))"

definition getUser :: "runtime \<Rightarrow> json \<Rightarrow> world \<Rightarrow> (error + json) \<times> world" where
  "getUser rt ident w =
     (case redis_get (cache w) (cacheKey rt ident) of
        Inl err \<Rightarrow> (Inl err, w)
      | Inr cached \<Rightarrow>
          (case cached of
             Some text \<Rightarrow> if text \<noteq> [] then (JSON_parse rt text, w) else getUser_miss rt ident w
           | None \<Rightarrow> getUser_miss rt ident w))"

text \<open>
  \<^verbatim>\<open>cacheAsideExample\<close>. Its database access is simulated by an object literal, which
  cannot fail and holds the identifier as it was passed; \<^verbatim>\<open>new Redis()\<close> is one more
  client of the same server.
\<close>

definition simulated_user :: "json \<Rightarrow> json" where
  "simulated_user userId = JObj [(''id'', userId), (''name'', JStr ''From DB'')]"

definition cacheAside_miss :: "runtime \<Rightarrow> json \<Rightarrow> world \<Rightarrow> (error + json) \<times> world" where
  "cacheAside_miss rt userId w =
     (let user = simulated_user userId in
      case redis_set_ex (cache w) (cacheKey rt userId) (JSON_stringify rt user) 600 of
        Inl err \<Rightarrow> (Inl err, w)
      | Inr c \<Rightarrow> (Inr user, w\<lparr>cache := c\<rparr>))"

definition cacheAsideExample :: "runtime \<Rightarrow> json \<Rightarrow> world \<Rightarrow> (error + json) \<times> world" where
  "cacheAsideExample rt userId w =
     (case redis_get (cache w) (cacheKey rt userId) of
        Inl err \<Rightarrow> (Inl err, w)
      | Inr cachedData \<Rightarrow>
          (case cachedData of
             Some text \<Rightarrow>
               if text \<noteq> [] then (JSON_parse rt text, w) else cacheAside_miss rt userId w
           | None \<Rightarrow> cacheAside_miss rt userId w))"

text \<open>A read of key \<open>k\<close> is a miss: Redis answers, with nothing truthy.\<close>

definition misses :: "world \<Rightarrow> string \<Rightarrow> bool" where
  "misses w k = (case redis_get (cache w) k of Inl err \<Rightarrow> False | Inr cached \<Rightarrow> \<not> truthy cached)"

text \<open>
  Concrete inputs. A runtime: the number 1 converts to the string \<^verbatim>\<open>1\<close>, the only
  well-formed JSON text is \<^verbatim>\<open>ada\<close>, standing for one user, and the database knows
  identifier 1 only. A second runtime whose database answers its first call with that
  user and every later call with the user renamed. Stores with one entry expiring at
  time 100, with no entry, rejecting every read, and rejecting every write.
\<close>

definition ada :: json where
  "ada = JObj [(''id'', JNum 1), (''name'', JStr ''Ada'')]"

definition grace :: json where
  "grace = JObj [(''id'', JNum 1), (''name'', JStr ''Grace'')]"

definition demo_runtime :: runtime where
  "demo_runtime =
     \<lparr>ToString = (\<lambda>v. if v = JNum 1 then ''1'' else ''2''),
      JSON_parse = (\<lambda>text. if text = ''ada'' then Inr ada else Inl (Error ''SyntaxError'')),
      JSON_stringify = (\<lambda>v. if v = ada then ''ada'' else ''other''),
      db_findById =
        (\<lambda>history ident. if ident = JNum 1 then Inr ada else Inl (Error ''db down''))\<rparr>"

definition renaming_runtime :: runtime where
  "renaming_runtime =
     demo_runtime\<lparr>db_findById := (\<lambda>history ident. if history = [] then Inr ada else Inr grace)\<rparr>"

definition store_with :: "string \<Rightarrow> string \<Rightarrow> world" where
  "store_with k text =
     \<lparr>cache = \<lparr>entries = [k \<mapsto> (text, Some 100)], now = 0, get_fault = None,
               set_fault = None, set_log = []\<rparr>,
      db_calls = []\<rparr>"

definition empty_store :: world where
  "empty_store =
     \<lparr>cache = \<lparr>entries = Map.empty, now = 0, get_fault = None, set_fault = None,
               set_log = []\<rparr>,
      db_calls = []\<rparr>"

definition unreadable_store :: world where
  "unreadable_store =
     empty_store\<lparr>cache := (cache empty_store)\<lparr>get_fault := Some (Error ''ECONNREFUSED'')\<rparr>\<rparr>"

definition unwritable_store :: world where
  "unwritable_store =
     empty_store\<lparr>cache := (cache empty_store)\<lparr>set_fault := Some (Error ''OOM'')\<rparr>\<rparr>"

section \<open>Concurrent callers\<close>

text \<open>
  An \<^verbatim>\<open>async\<close> function runs without interruption from one \<^verbatim>\<open>await\<close> to the next, and
  calls that are in progress together take turns at these points. A caller of a reader is
  therefore a task that is at one of its awaits: about to have its \<^verbatim>\<open>redis.get\<close>
  answered, its \<^verbatim>\<open>db.users.findById\<close> answered, its \<^verbatim>\<open>redis.set\<close> answered, or settled.
  \<^verbatim>\<open>cacheAsideExample\<close> has no database await: after a miss it goes on to its
  \<^verbatim>\<open>redis.set\<close> with the simulated user and ttl 600.
\<close>

datatype reader = GetUser | CacheAsideExample

datatype task =
    AtGet reader json
  | AtDb json
  | AtSet json json int
  | Settled "error + json"

fun after_miss :: "reader \<Rightarrow> json \<Rightarrow> task" where
  "after_miss GetUser ident = AtDb ident"
| "after_miss CacheAsideExample userId = AtSet userId (simulated_user userId) 600"

text \<open>
  One step of a task: the command it awaits is carried out and the task moves on. The
  database settles a call when it serves it, knowing the calls it has served before.
\<close>

fun step :: "runtime \<Rightarrow> task \<Rightarrow> world \<Rightarrow> task \<times> world" where
  "step rt (AtGet rd ident) w =
     (case redis_get (cache w) (cacheKey rt ident) of
        Inl err \<Rightarrow> (Settled (Inl err), w)
      | Inr cached \<Rightarrow>
          (case cached of
             Some text \<Rightarrow>
               if text \<noteq> [] then (Settled (JSON_parse rt text), w) else (after_miss rd ident, w)
           | None \<Rightarrow> (after_miss rd ident, w)))"
| "step rt (AtDb ident) w =
     (let w1 = w\<lparr>db_calls := db_calls w @ [ident]\<rparr> in
      case db_findById rt (db_calls w) ident of
        Inl err \<Rightarrow> (Settled (Inl err), w1)
      | Inr user \<Rightarrow> (AtSet ident user 3600, w1))"
| "step rt (AtSet ident user ttl) w =
     (case redis_set_ex (cache w) (cacheKey rt ident) (JSON_stringify rt user) ttl of
        Inl err \<Rightarrow> (Settled (Inl err), w)
      | Inr c \<Rightarrow> (Settled (Inr user), w\<lparr>cache := c\<rparr>))"
| "step rt (Settled r) w = (Settled r, w)"

text \<open>
  A turn is a step of the caller named by its index. A schedule is the order in which the
  callers get their turns; every interleaving of the callers is a schedule.
\<close>

definition turn :: "runtime \<Rightarrow> nat \<Rightarrow> task list \<times> world \<Rightarrow> task list \<times> world" where
  "turn rt i tw =
     (case tw of (ts, w) \<Rightarrow>
        if i < length ts then (case step rt (ts ! i) w of (t', w') \<Rightarrow> (ts[i := t'], w'))
        else (ts, w))"

fun run :: "runtime \<Rightarrow> nat list \<Rightarrow> task list \<times> world \<Rightarrow> task list \<times> world" where
  "run rt [] tw = tw"
| "run rt (i # sched) tw = run rt sched (turn rt i tw)"

text \<open>\<open>n\<close> callers of one reader for one identifier, started together.\<close>

definition concurrent ::
  "runtime \<Rightarrow> reader \<Rightarrow> json \<Rightarrow> nat \<Rightarrow> nat list \<Rightarrow> world \<Rightarrow> task list \<times> world" where
  "concurrent rt rd ident n sched w = run rt sched (replicate n (AtGet rd ident), w)"

text \<open>Where a caller is: still reading, about to write, or settled.\<close>

fun is_read :: "task \<Rightarrow> bool" where
  "is_read (AtGet rd ident) = True"
| "is_read t = False"

fun is_write :: "task \<Rightarrow> bool" where
  "is_write (AtSet ident user ttl) = True"
| "is_write t = False"

fun is_settled :: "task \<Rightarrow> bool" where
  "is_settled (Settled r) = True"
| "is_settled t = False"

text \<open>The number of callers whose origin fetch is outstanding.\<close>

definition in_flight :: "task list \<Rightarrow> nat" where
  "in_flight ts = length (filter (\<lambda>t. case t of AtDb ident \<Rightarrow> True | _ \<Rightarrow> False) ts)"

text \<open>
  What the callers hold, in the order of the callers: the value a caller is about to
  write, or the outcome it has settled with.
\<close>

fun held :: "task \<Rightarrow> (error + json) list" where
  "held (AtSet ident user ttl) = [Inr user]"
| "held (Settled r) = [r]"
| "held t = []"

definition outcomes :: "task list \<Rightarrow> (error + json) list" where
  "outcomes ts = concat (map held ts)"

text \<open>
  A schedule in which every read is answered before any write: whenever a caller that is
  about to write gets its turn, no caller is still reading.
\<close>

fun reads_first :: "runtime \<Rightarrow> nat list \<Rightarrow> task list \<times> world \<Rightarrow> bool" where
  "reads_first rt [] tw = True"
| "reads_first rt (i # sched) tw =
     ((i < length (fst tw) \<and> is_write (fst tw ! i) \<longrightarrow> \<not> list_ex is_read (fst tw))
      \<and> reads_first rt sched (turn rt i tw))"

text \<open>
  What holds of \<open>n\<close> callers of \<^verbatim>\<open>getUser\<close> as long as reads come first: each is at one of
  its awaits, the store is the initial one while somebody still reads, and the database
  has served one call for each value or error a caller holds.
\<close>

definition fetch_inv :: "runtime \<Rightarrow> world \<Rightarrow> json \<Rightarrow> nat \<Rightarrow> task list \<times> world \<Rightarrow> bool" where
  "fetch_inv rt w ident n tw =
     (case tw of (ts, w') \<Rightarrow>
        length ts = n
      \<and> list_all (\<lambda>t. case t of AtGet rd i \<Rightarrow> rd = GetUser \<and> i = ident
                       | AtDb i \<Rightarrow> i = ident
                       | AtSet i user ttl \<Rightarrow> i = ident \<and> ttl = 3600
                       | Settled r \<Rightarrow> True) ts
      \<and> (list_ex is_read ts \<longrightarrow> cache w' = cache w)
      \<and> set_fault (cache w') = None
      \<and> db_calls w' = db_calls w @ replicate (length (outcomes ts)) ident
      \<and> mset (outcomes ts)
          = mset (map (\<lambda>k. db_findById rt (db_calls w @ replicate k ident) ident)
                   [0..<length (outcomes ts)]))"

text \<open>The same for \<open>n\<close> callers of \<^verbatim>\<open>cacheAsideExample\<close>: one \<^verbatim>\<open>SET\<close> for each settled caller.\<close>

definition write_inv :: "runtime \<Rightarrow> world \<Rightarrow> json \<Rightarrow> nat \<Rightarrow> task list \<times> world \<Rightarrow> bool" where
  "write_inv rt w ident n tw =
     (case tw of (ts, w') \<Rightarrow>
        length ts = n
      \<and> list_all (\<lambda>t. case t of AtGet rd i \<Rightarrow> rd = CacheAsideExample \<and> i = ident
                       | AtDb i \<Rightarrow> False
                       | AtSet i user ttl \<Rightarrow> i = ident \<and> user = simulated_user ident \<and> ttl = 600
                       | Settled r \<Rightarrow> r = Inr (simulated_user ident)) ts
      \<and> (list_ex is_read ts \<longrightarrow> cache w' = cache w)
      \<and> set_fault (cache w') = None
      \<and> db_calls w' = db_calls w
      \<and> set_log (cache w')
          = set_log (cache w)
            @ replicate (length (filter is_settled ts))
                (cacheKey rt ident, JSON_stringify rt (simulated_user ident), 600))"

section \<open>Properties of the retry strategy\<close>

lemma withRetry_loop_done:
  "\<not> i < retries \<Longrightarrow> withRetry_loop fn retries delay i s tr = (Inr Undefined, s, tr)"
  by (simp add: withRetry_loop.simps)

text \<open>
  C10. For every \<^verbatim>\<open>fn\<close>, \<^verbatim>\<open>withRetry(fn, retries)\<close> with \<^verbatim>\<open>retries\<close> zero or negative
  resolves to \<^verbatim>\<open>undefined\<close>: no invocation of \<^verbatim>\<open>fn\<close> and no pause is in the trace, the
  world is untouched, no error is raised, and the caller sees exactly what it sees from a
  call that succeeded with the value \<^verbatim>\<open>undefined\<close>.
\<close>

theorem withRetry_nonpositive_retries:
  assumes "retries \<le> 0"
  shows "withRetry fn (Some retries) delay s = (Inr Undefined, s, [])
       \<and> invocations (trace (withRetry fn (Some retries) delay s)) = 0
       \<and> outcome (withRetry fn (Some retries) delay s)
           = outcome (withRetry resolves_undefined (Some 1) delay n)"
proof -
  have run: "withRetry fn (Some retries) delay s = (Inr Undefined, s, [])"
    using assms by (simp add: withRetry_def dflt_def withRetry_loop_done)
  have other: "outcome (withRetry resolves_undefined (Some 1) delay n) = Inr Undefined"
    by (simp add: withRetry_def dflt_def withRetry_loop.simps resolves_undefined_def outcome_def)
  have mine: "outcome (withRetry fn (Some retries) delay s) = Inr Undefined"
    by (simp add: run outcome_def)
  have none: "invocations (trace (withRetry fn (Some retries) delay s)) = 0"
    by (simp add: run invocations_def trace_def)
  show ?thesis
    using run none mine other by simp
qed

text \<open>The theorem at \<^verbatim>\<open>retries = 0\<close> and \<^verbatim>\<open>retries = -2\<close>.\<close>

theorem withRetry_nonpositive_retries_witness:
  "(0::int) \<le> 0
   \<and> withRetry always_fails (Some 0) None (0::nat) = (Inr Undefined, 0, [])
   \<and> withRetry always_fails (Some (- 2)) (Some 50) (7::nat) = (Inr Undefined, 7, [])"
  using withRetry_nonpositive_retries [of 0 always_fails None "0::nat" 0]
        withRetry_nonpositive_retries [of "- 2" always_fails "Some 50" "7::nat" 0]
  by simp

lemma withRetry_loop_char:
  "i < retries \<Longrightarrow>
   \<exists>m. 1 \<le> m \<and> int m \<le> retries - i
     \<and> (\<forall>j<m - 1. isl (fst (attempt fn j s)))
     \<and> withRetry_loop fn retries delay i s tr
         = (fst (attempt fn (m - 1) s), snd (attempt fn (m - 1) s), tr @ schedule delay i m)
     \<and> (isl (fst (attempt fn (m - 1) s)) \<longrightarrow> int m = retries - i)"
proof (induction fn retries delay i s tr rule: withRetry_loop.induct)
  case (1 fn retries delay i s tr)
  obtain r s' where fs: "fn s = (r, s')" by (cases "fn s")
  show ?case
  proof (cases r)
    case (Inr v)
    have "withRetry_loop fn retries delay i s tr = (Inr v, s', tr @ [Invoked])"
      using "1.prems" fs Inr by (simp add: withRetry_loop.simps)
    then show ?thesis
      using "1.prems" fs Inr by (intro exI [of _ 1]) simp
  next
    case (Inl err)
    show ?thesis
    proof (cases "i = retries - 1")
      case True
      have "withRetry_loop fn retries delay i s tr = (Inl err, s', tr @ [Invoked])"
        using "1.prems" fs Inl True by (simp add: withRetry_loop.simps)
      then show ?thesis
        using True fs Inl by (intro exI [of _ 1]) simp
    next
      case False
      then have lt: "i + 1 < retries" using "1.prems" by simp
      have step: "withRetry_loop fn retries delay i s tr
                  = withRetry_loop fn retries delay (i + 1) s'
                      (tr @ [Invoked, Slept (setTimeout_delay (delay * (i + 1)))])"
        using "1.prems" fs Inl False by (simp add: withRetry_loop.simps [of fn retries delay i])
      from "1.IH" [OF "1.prems" fs [symmetric] Inl False lt]
      obtain m where m: "1 \<le> m" "int m \<le> retries - (i + 1)"
        "\<forall>j<m - 1. isl (fst (attempt fn j s'))"
        "withRetry_loop fn retries delay (i + 1) s'
            (tr @ [Invoked, Slept (setTimeout_delay (delay * (i + 1)))])
          = (fst (attempt fn (m - 1) s'), snd (attempt fn (m - 1) s'),
             (tr @ [Invoked, Slept (setTimeout_delay (delay * (i + 1)))])
               @ schedule delay (i + 1) m)"
        "isl (fst (attempt fn (m - 1) s')) \<longrightarrow> int m = retries - (i + 1)"
        by blast
      obtain m' where m': "m = Suc m'" using m(1) by (cases m) auto
      have att: "\<And>k. attempt fn (Suc k) s = attempt fn k s'" using fs by simp
      have fails: "\<forall>j<Suc m - 1. isl (fst (attempt fn j s))"
      proof (intro allI impI)
        fix j assume "j < Suc m - 1"
        then show "isl (fst (attempt fn j s))"
          using m(3) fs Inl att by (cases j) (auto simp: m')
      qed
      show ?thesis
        apply (rule exI [of _ "Suc m"])
        using m fails step att by (simp add: m')
    qed
  qed
qed


lemma withRetry_char:
  assumes "1 \<le> n"
  shows "\<exists>m. 1 \<le> m \<and> int m \<le> n
     \<and> (\<forall>j<m - 1. isl (fst (attempt fn j s)))
     \<and> withRetry fn (Some n) delay s
         = (fst (attempt fn (m - 1) s), snd (attempt fn (m - 1) s),
            schedule (dflt 1000 delay) 0 m)
     \<and> (isl (fst (attempt fn (m - 1) s)) \<longrightarrow> int m = n)"
  using withRetry_loop_char [of 0 n fn s "dflt 1000 delay" "[]"] assms
  by (simp add: withRetry_def dflt_def)

lemma invocations_schedule: "invocations (schedule delay i m) = m"
  by (induction delay i m rule: schedule.induct) (simp_all add: invocations_def)

text \<open>
  C6. For every wrapped function and every \<^verbatim>\<open>retries\<close> = \<open>n \<ge> 1\<close>, \<^verbatim>\<open>withRetry\<close> invokes
  \<^verbatim>\<open>fn\<close> at most \<open>n\<close> times. If attempt \<open>k < n\<close> is the first to succeed, its value is
  what the caller gets (after \<open>k + 1\<close> invocations); if all \<open>n\<close> attempts fail, the caller
  gets the error of the last, \<open>n\<close>-th, attempt.
\<close>

theorem withRetry_at_most_n_attempts:
  assumes "1 \<le> n"
  shows "invocations (trace (withRetry fn (Some n) delay s)) \<le> nat n
    \<and> (\<forall>k v. int k < n \<and> (\<forall>j<k. isl (fst (attempt fn j s))) \<and> fst (attempt fn k s) = Inr v
          \<longrightarrow> outcome (withRetry fn (Some n) delay s) = Inr v
            \<and> invocations (trace (withRetry fn (Some n) delay s)) = k + 1)
    \<and> ((\<forall>j. int j < n \<longrightarrow> isl (fst (attempt fn j s)))
          \<longrightarrow> outcome (withRetry fn (Some n) delay s) = fst (attempt fn (nat n - 1) s)
            \<and> invocations (trace (withRetry fn (Some n) delay s)) = nat n)"
proof -
  let ?R = "withRetry fn (Some n) delay s"
  obtain m where m: "1 \<le> m" "int m \<le> n"
    "\<forall>j<m - 1. isl (fst (attempt fn j s))"
    "?R = (fst (attempt fn (m - 1) s), snd (attempt fn (m - 1) s),
            schedule (dflt 1000 delay) 0 m)"
    "isl (fst (attempt fn (m - 1) s)) \<longrightarrow> int m = n"
    using withRetry_char [OF assms, of fn s delay] by blast
  have inv: "invocations (trace ?R) = m"
    by (simp add: m(4) trace_def invocations_schedule)
  have out: "outcome ?R = fst (attempt fn (m - 1) s)"
    by (simp add: m(4) outcome_def)
  have bound: "invocations (trace ?R) \<le> nat n"
    using inv m(2) by simp
  have success: "outcome ?R = Inr v \<and> invocations (trace ?R) = k + 1"
    if k: "int k < n" "\<forall>j<k. isl (fst (attempt fn j s))" "fst (attempt fn k s) = Inr v"
    for k v
  proof -
    have "\<not> k < m - 1" using m(3) k(3) by auto
    moreover have "\<not> m - 1 < k"
    proof
      assume lt: "m - 1 < k"
      then have "isl (fst (attempt fn (m - 1) s))" using k(2) by simp
      then have "int m = n" using m(5) by simp
      then show False using lt k(1) m(1) by simp
    qed
    ultimately have "m - 1 = k" by simp
    then show ?thesis using inv out k(3) m(1) by simp
  qed
  have exhausted: "outcome ?R = fst (attempt fn (nat n - 1) s) \<and> invocations (trace ?R) = nat n"
    if all: "\<forall>j. int j < n \<longrightarrow> isl (fst (attempt fn j s))"
  proof -
    have "int (m - 1) < n" using m(1,2) by simp
    then have "isl (fst (attempt fn (m - 1) s))" using all by blast
    then have "int m = n" using m(5) by simp
    then have "m = nat n" by simp
    then show ?thesis using inv out by simp
  qed
  show ?thesis using bound success exhausted by blast
qed


lemma attempt_always_fails: "attempt always_fails j n = (Inl (Error ''boom''), Suc (n + j))"
  by (induction j arbitrary: n) (simp_all add: always_fails_def)

text \<open>
  The theorem at \<open>n = 3\<close>: a thunk that succeeds at its third call, and one that never does.
\<close>

theorem withRetry_at_most_n_attempts_witness:
  "(1::int) \<le> 3
   \<and> outcome (withRetry third_time_lucky (Some 3) None 0) = Inr (Value 42)
   \<and> invocations (trace (withRetry third_time_lucky (Some 3) None 0)) = 3
   \<and> outcome (withRetry always_fails (Some 3) None 0) = Inl (Error ''boom'')
   \<and> invocations (trace (withRetry always_fails (Some 3) None 0)) = 3"
proof -
  have a0: "attempt third_time_lucky 0 0 = (Inl (Error ''boom''), 1)"
    by (simp add: third_time_lucky_def)
  have a1: "attempt third_time_lucky (Suc 0) 0 = (Inl (Error ''boom''), 2)"
    by (simp add: third_time_lucky_def)
  have a2: "attempt third_time_lucky 2 0 = (Inr (Value 42), 3)"
    by (simp add: third_time_lucky_def numeral_2_eq_2)
  have early: "\<forall>j<2. isl (fst (attempt third_time_lucky j 0))"
    using a0 a1 by (auto simp: less_Suc_eq numeral_2_eq_2)
  have three: "(1::int) \<le> 3" by simp
  have "int 2 < 3 \<and> (\<forall>j<2. isl (fst (attempt third_time_lucky j 0)))
          \<and> fst (attempt third_time_lucky 2 0) = Inr (Value 42)
        \<longrightarrow> outcome (withRetry third_time_lucky (Some 3) None 0) = Inr (Value 42)
          \<and> invocations (trace (withRetry third_time_lucky (Some 3) None 0)) = 2 + 1"
    using withRetry_at_most_n_attempts [of 3 third_time_lucky None 0] three by blast
  then have lucky: "outcome (withRetry third_time_lucky (Some 3) None 0) = Inr (Value 42)
     \<and> invocations (trace (withRetry third_time_lucky (Some 3) None 0)) = 3"
    using early a2 by simp
  have "outcome (withRetry always_fails (Some 3) None 0) = fst (attempt always_fails (nat 3 - 1) 0)
     \<and> invocations (trace (withRetry always_fails (Some 3) None 0)) = nat 3"
    using withRetry_at_most_n_attempts [of 3 always_fails None 0]
    by (simp add: attempt_always_fails)
  then have unlucky: "outcome (withRetry always_fails (Some 3) None 0) = Inl (Error ''boom'')
     \<and> invocations (trace (withRetry always_fails (Some 3) None 0)) = 3"
    by (simp add: attempt_always_fails)
  show ?thesis using lucky unlucky by simp
qed

lemma schedule_explicit:
  "schedule delay i (Suc k)
     = Invoked # concat (map (\<lambda>j. [Slept (setTimeout_delay (delay * (i + int j + 1))), Invoked])
                          [0..<k])"
proof (induction k arbitrary: i)
  case 0
  show ?case by simp
next
  case (Suc k)
  have "schedule delay i (Suc (Suc k))
          = Invoked # Slept (setTimeout_delay (delay * (i + 1))) # schedule delay (i + 1) (Suc k)"
    by simp
  also have "\<dots> = Invoked # Slept (setTimeout_delay (delay * (i + 1))) # Invoked
          # concat (map (\<lambda>j. [Slept (setTimeout_delay (delay * (i + 1 + int j + 1))), Invoked])
                      [0..<k])"
    by (simp only: Suc.IH)
  also have "\<dots> = Invoked
          # concat (map (\<lambda>j. [Slept (setTimeout_delay (delay * (i + int j + 1))), Invoked])
                      [0..<Suc k])"
    by (simp add: map_upt_Suc add.commute add.left_commute del: upt_Suc)
  finally show ?case .
qed

lemma pauses_schedule:
  "pauses (schedule delay i m)
     = map (\<lambda>j. setTimeout_delay (delay * (i + int j + 1))) [0..<m - 1]"
proof (induction delay i m rule: schedule.induct)
  case (3 delay i m)
  have "pauses (schedule delay i (Suc (Suc m)))
          = setTimeout_delay (delay * (i + 1)) # pauses (schedule delay (i + 1) (Suc m))"
    by simp
  also have "\<dots> = setTimeout_delay (delay * (i + 1))
          # map (\<lambda>j. setTimeout_delay (delay * (i + 1 + int j + 1))) [0..<m]"
    using "3.IH" by simp
  also have "\<dots> = map (\<lambda>j. setTimeout_delay (delay * (i + int j + 1))) [0..<Suc m]"
    by (simp add: map_upt_Suc add.commute add.left_commute del: upt_Suc)
  finally show ?case by simp
qed simp_all

lemma pauses_before_schedule_0: "pauses_before (schedule delay i m) 0 = []"
  by (induction delay i m rule: schedule.induct) simp_all

lemma pauses_before_schedule_Suc:
  "Suc j < m \<Longrightarrow> pauses_before (schedule delay i m) (Suc j)
                 = [setTimeout_delay (delay * (i + int j + 1))]"
proof (induction delay i m arbitrary: j rule: schedule.induct)
  case (3 delay i m)
  show ?case
  proof (cases j)
    case 0
    then show ?thesis
      using pauses_before_schedule_0 [of delay "i + 1" "Suc m"] by simp
  next
    case (Suc j')
    then have "Suc j' < Suc m" using "3.prems" by simp
    from "3.IH" [OF this] show ?thesis using Suc by (simp add: algebra_simps)
  qed
qed simp_all

lemma wait_mono:
  assumes "delay * int k \<le> 2147483647" and "a \<le> b" and "b < k"
  shows "setTimeout_delay (delay * (int a + 1)) \<le> setTimeout_delay (delay * (int b + 1))"
proof (cases "delay \<le> 0")
  case True
  have "delay * (int a + 1) \<le> 0" "delay * (int b + 1) \<le> 0"
    using True by (simp_all add: mult_nonpos_nonneg)
  then show ?thesis by (simp add: setTimeout_delay_def)
next
  case False
  then have pos: "1 \<le> delay" by simp
  have ab: "delay * (int a + 1) \<le> delay * (int b + 1)"
    using pos assms(2) by (simp add: mult_left_mono)
  have bk: "delay * (int b + 1) \<le> delay * int k"
    using pos assms(3) by (simp add: mult_left_mono)
  have lo: "1 \<le> delay * (int a + 1)"
    using pos mult_mono [of 1 delay 1 "int a + 1"] by simp
  show ?thesis
    using ab bk lo assms(1) by (simp add: setTimeout_delay_def)
qed

lemma sorted_pauses_schedule:
  assumes "delay * (int m - 1) \<le> 2147483647"
  shows "sorted (pauses (schedule delay 0 m))"
proof -
  have k: "delay * int (m - 1) \<le> 2147483647"
  proof (cases m)
    case 0
    then show ?thesis by simp
  next
    case (Suc k)
    then show ?thesis using assms by simp
  qed
  show ?thesis
    unfolding pauses_schedule sorted_iff_nth_mono
    using wait_mono [OF k] by simp
qed

lemma withRetry_trace_schedule:
  "trace (withRetry fn retries delay s)
     = schedule (dflt 1000 delay) 0 (invocations (trace (withRetry fn retries delay s)))"
proof (cases "0 < dflt 3 retries")
  case True
  from withRetry_loop_char [OF True, of fn s "dflt 1000 delay" "[]"]
  obtain m where "withRetry_loop fn (dflt 3 retries) (dflt 1000 delay) 0 s []
         = (fst (attempt fn (m - 1) s), snd (attempt fn (m - 1) s),
            [] @ schedule (dflt 1000 delay) 0 m)" by blast
  then show ?thesis
    by (simp add: withRetry_def trace_def invocations_schedule)
next
  case False
  then show ?thesis
    by (simp add: withRetry_def trace_def withRetry_loop_done invocations_def)
qed

text \<open>
  C7, as stated, fails. With \<^verbatim>\<open>delay = 1000\<close> and a thunk that always fails, the run is
  attempt 0, a wait of 1000, attempt 1, a wait of 2000, attempt 2: no pause precedes
  attempt 0, and the pause before attempt 1 is 1000, not \<open>1000 * (1 + 1)\<close>. The factor
  \<open>i + 1\<close> belongs to the attempt that has just failed, not to the one that follows the
  pause. And with \<^verbatim>\<open>delay = 1500000000\<close> the second delay asked for, 3000000000, is above
  \<open>2\<^sup>3\<^sup>1 - 1\<close>: the waits are 1500000000 and then 1, which is not non-decreasing.
\<close>

theorem delay_before_attempt_counterexample:
  "trace (withRetry always_fails (Some 3) (Some 1000) 0)
     = [Invoked, Slept 1000, Invoked, Slept 2000, Invoked]
   \<and> pauses_before (trace (withRetry always_fails (Some 3) (Some 1000) 0)) 0 = []
   \<and> pauses_before (trace (withRetry always_fails (Some 3) (Some 1000) 0)) 1 = [1000]
   \<and> pauses_before (trace (withRetry always_fails (Some 3) (Some 1000) 0)) 1
        \<noteq> [1000 * (1 + 1)]
   \<and> pauses (trace (withRetry always_fails (Some 3) (Some 1500000000) 0)) = [1500000000, 1]
   \<and> \<not> sorted (pauses (trace (withRetry always_fails (Some 3) (Some 1500000000) 0)))"
  by (simp add: withRetry_def dflt_def withRetry_loop.simps always_fails_def trace_def
      setTimeout_delay_def)

text \<open>
  C7, amended. A run is its attempts with exactly one pause between two successive
  attempts and none before the first or after the last. The pause after the failed
  attempt \<open>i\<close>, that is before attempt \<open>i + 1\<close>, is the time \<^verbatim>\<open>setTimeout\<close> waits for
  \<open>delay * (i + 1)\<close>: that many milliseconds when the product lies between 1 and
  \<open>2\<^sup>3\<^sup>1 - 1\<close>, and 1 millisecond otherwise. The pauses of one run are non-decreasing when
  the largest delay asked for, \<open>delay\<close> times the number of pauses, is at most \<open>2\<^sup>3\<^sup>1 - 1\<close>.
\<close>

theorem withRetry_backoff_delays:
  "trace (withRetry fn retries (Some delay) s)
     = (if invocations (trace (withRetry fn retries (Some delay) s)) = 0 then []
        else Invoked
          # concat (map (\<lambda>i. [Slept (setTimeout_delay (delay * (int i + 1))), Invoked])
                      [0..<invocations (trace (withRetry fn retries (Some delay) s)) - 1]))
   \<and> pauses_before (trace (withRetry fn retries (Some delay) s)) 0 = []
   \<and> (\<forall>i. Suc i < invocations (trace (withRetry fn retries (Some delay) s))
          \<longrightarrow> pauses_before (trace (withRetry fn retries (Some delay) s)) (Suc i)
                = [setTimeout_delay (delay * (int i + 1))])
   \<and> (\<forall>i. 1 \<le> delay * (int i + 1) \<and> delay * (int i + 1) \<le> 2147483647
          \<longrightarrow> setTimeout_delay (delay * (int i + 1)) = delay * (int i + 1))
   \<and> (\<forall>i. delay * (int i + 1) < 1 \<or> 2147483647 < delay * (int i + 1)
          \<longrightarrow> setTimeout_delay (delay * (int i + 1)) = 1)
   \<and> (delay * (int (invocations (trace (withRetry fn retries (Some delay) s))) - 1)
          \<le> 2147483647
        \<longrightarrow> sorted (pauses (trace (withRetry fn retries (Some delay) s))))"
proof -
  let ?tr = "trace (withRetry fn retries (Some delay) s)"
  have shape: "?tr = schedule delay 0 (invocations ?tr)"
    using withRetry_trace_schedule [of fn retries "Some delay" s] by (simp add: dflt_def)
  have whole: "?tr = (if invocations ?tr = 0 then []
        else Invoked
          # concat (map (\<lambda>i. [Slept (setTimeout_delay (delay * (int i + 1))), Invoked])
                      [0..<invocations ?tr - 1]))"
  proof (cases "invocations ?tr")
    case 0
    then show ?thesis using shape by simp
  next
    case (Suc k)
    then have "?tr = schedule delay 0 (Suc k)" using shape by simp
    then show ?thesis using Suc by (simp add: schedule_explicit)
  qed
  have first: "pauses_before ?tr 0 = []"
    using pauses_before_schedule_0 [of delay 0 "invocations ?tr"] shape by simp
  have later: "pauses_before ?tr (Suc i) = [setTimeout_delay (delay * (int i + 1))]"
    if "Suc i < invocations ?tr" for i
  proof -
    have "pauses_before (schedule delay 0 (invocations ?tr)) (Suc i)
            = [setTimeout_delay (delay * (0 + int i + 1))]"
      using that by (rule pauses_before_schedule_Suc)
    then show ?thesis using shape by simp
  qed
  have within: "setTimeout_delay (delay * (int i + 1)) = delay * (int i + 1)"
    if "1 \<le> delay * (int i + 1) \<and> delay * (int i + 1) \<le> 2147483647" for i
    using that by (simp add: setTimeout_delay_def)
  have outside: "setTimeout_delay (delay * (int i + 1)) = 1"
    if "delay * (int i + 1) < 1 \<or> 2147483647 < delay * (int i + 1)" for i
    using that by (simp add: setTimeout_delay_def)
  have mono: "sorted (pauses ?tr)"
    if "delay * (int (invocations ?tr) - 1) \<le> 2147483647"
    using sorted_pauses_schedule [OF that] shape by simp
  show ?thesis
    using whole first later within outside mono by blast
qed

text \<open>The amended statement at \<^verbatim>\<open>retries = 3\<close>, \<^verbatim>\<open>delay = 1000\<close>.\<close>

theorem withRetry_backoff_delays_witness:
  "Suc 0 < invocations (trace (withRetry always_fails (Some 3) (Some 1000) 0))
   \<and> pauses_before (trace (withRetry always_fails (Some 3) (Some 1000) 0)) (Suc 0) = [1000]
   \<and> (1::int) \<le> 1000 * (int 0 + 1) \<and> (1000::int) * (int 0 + 1) \<le> 2147483647
   \<and> setTimeout_delay (1000 * (int 0 + 1)) = 1000 * (int 0 + 1)
   \<and> 1000 * (int (invocations (trace (withRetry always_fails (Some 3) (Some 1000) 0))) - 1)
        \<le> 2147483647
   \<and> sorted (pauses (trace (withRetry always_fails (Some 3) (Some 1000) 0)))"
proof -
  have n: "invocations (trace (withRetry always_fails (Some 3) (Some 1000) 0)) = 3"
    by (simp add: withRetry_def dflt_def withRetry_loop.simps always_fails_def trace_def
        invocations_def)
  have r: "(1::int) \<le> 1000 * (int 0 + 1) \<and> (1000::int) * (int 0 + 1) \<le> 2147483647" by simp
  have w: "setTimeout_delay (1000 * (int 0 + 1)) = 1000" by (simp add: setTimeout_delay_def)
  have b: "1000 * (int (invocations (trace (withRetry always_fails (Some 3) (Some 1000) 0))) - 1)
             \<le> 2147483647"
    by (simp add: n)
  have gap: "Suc 0 < invocations (trace (withRetry always_fails (Some 3) (Some 1000) 0))
        \<longrightarrow> pauses_before (trace (withRetry always_fails (Some 3) (Some 1000) 0)) (Suc 0)
              = [setTimeout_delay (1000 * (int 0 + 1))]"
    using withRetry_backoff_delays [of always_fails "Some 3" 1000 0] by blast
  have mono: "1000 * (int (invocations (trace (withRetry always_fails (Some 3) (Some 1000) 0))) - 1)
          \<le> 2147483647
        \<longrightarrow> sorted (pauses (trace (withRetry always_fails (Some 3) (Some 1000) 0)))"
    using withRetry_backoff_delays [of always_fails "Some 3" 1000 0] by blast
  have "pauses_before (trace (withRetry always_fails (Some 3) (Some 1000) 0)) (Suc 0) = [1000]"
    using gap n w by simp
  moreover have "sorted (pauses (trace (withRetry always_fails (Some 3) (Some 1000) 0)))"
    using mono b by blast
  ultimately show ?thesis using n r w b by simp
qed

section \<open>Properties of the circuit breaker\<close>

text \<open>
  C3. Whenever the breaker is in the Open state, a call through it fails at once with the
  error \<^verbatim>\<open>Circuit is OPEN\<close>, and the wrapped function is not invoked: whatever \<^verbatim>\<open>fn\<close> is,
  the world it acts on, the timers and the breaker itself are what they were.
\<close>

theorem open_rejects_without_calling:
  assumes "state this = OPEN"
  shows "call this fn w = (Inl (Error ''Circuit is OPEN''), this, w)"
  using assms by (simp add: call_def)

text \<open>The theorem at an open breaker and a thunk that would count its invocation.\<close>

theorem open_rejects_without_calling_witness:
  "state (\<lparr>failures = 5, threshold = 5, timeout = 60000, state = OPEN\<rparr>) = OPEN
   \<and> call \<lparr>failures = 5, threshold = 5, timeout = 60000, state = OPEN\<rparr> always_succeeds (idle_loop 0)
       = (Inl (Error ''Circuit is OPEN''),
          \<lparr>failures = 5, threshold = 5, timeout = 60000, state = OPEN\<rparr>, idle_loop 0)
   \<and> origin (idle_loop 0) = 0"
  using open_rejects_without_calling
          [of "\<lparr>failures = 5, threshold = 5, timeout = 60000, state = OPEN\<rparr>" always_succeeds "idle_loop 0"]
  by (simp add: idle_loop_def)

text \<open>
  C4, as stated, fails in its last part: no \<^verbatim>\<open>openedAt\<close> is recorded. A breaker opened at
  time 0 and one opened at time 1000 are the same object afterwards, with the four fields
  of the constructor; what differs is the timer handed to the event loop.
\<close>

theorem opening_leaves_no_timestamp_counterexample:
  "breaker_after (call (new_CircuitBreaker (Some 1) None) always_fails (idle_loop 0))
     = \<lparr>failures = 1, threshold = 1, timeout = 60000, state = OPEN\<rparr>
   \<and> breaker_after (call (new_CircuitBreaker (Some 1) None) always_fails (idle_loop 1000))
     = \<lparr>failures = 1, threshold = 1, timeout = 60000, state = OPEN\<rparr>
   \<and> timers (loop_after (call (new_CircuitBreaker (Some 1) None) always_fails (idle_loop 0)))
     = [60000]
   \<and> timers (loop_after (call (new_CircuitBreaker (Some 1) None) always_fails (idle_loop 1000)))
     = [61000]"
  by (simp add: call_def new_CircuitBreaker_def dflt_def always_fails_def idle_loop_def
      breaker_after_def loop_after_def setTimeout_delay_def)

text \<open>
  C4, amended. A new breaker is Closed with no failure counted; its threshold is 5 and its
  timeout 60000 unless given. In the Closed state a call passes through to the wrapped
  function. A call that fails there adds one to \<^verbatim>\<open>failures\<close> (a count from 0 that is
  below \<open>2\<^sup>5\<^sup>3\<close>, where JavaScript's \<^verbatim>\<open>++\<close> is exact); when the count reaches the
  threshold the breaker becomes Open and, instead of recording when it opened, arms one
  timer. The timer is due after the time \<^verbatim>\<open>setTimeout\<close> waits for \<^verbatim>\<open>timeout\<close>: \<^verbatim>\<open>timeout\<close>
  milliseconds when that lies between 1 and \<open>2\<^sup>3\<^sup>1 - 1\<close>, 1 millisecond otherwise. Until
  then the breaker stays Open (when no older timer is pending); its firing sets the state
  to \<^verbatim>\<open>HALF-OPEN\<close>. Below the threshold the breaker stays Closed and no timer is armed.
\<close>

theorem closed_counts_failures_and_trips:
  "state (new_CircuitBreaker th tmo) = CLOSED
   \<and> failures (new_CircuitBreaker th tmo) = 0
   \<and> threshold (new_CircuitBreaker None tmo) = 5
   \<and> timeout (new_CircuitBreaker th None) = 60000
   \<and> (state this = CLOSED \<longrightarrow>
        fst (call this fn w) = fst (fn (origin w))
      \<and> origin (loop_after (call this fn w)) = snd (fn (origin w)))
   \<and> (state this = CLOSED \<and> isl (fst (fn (origin w)))
        \<and> 0 \<le> failures this \<and> failures this < 9007199254740992 \<longrightarrow>
        failures (breaker_after (call this fn w)) = failures this + 1
      \<and> (failures this + 1 \<ge> threshold this \<longrightarrow>
            state (breaker_after (call this fn w)) = OPEN
          \<and> timers (loop_after (call this fn w))
              = timers w @ [clock w + setTimeout_delay (timeout this)]
          \<and> (1 \<le> timeout this \<and> timeout this \<le> 2147483647
                \<longrightarrow> setTimeout_delay (timeout this) = timeout this)
          \<and> (timeout this < 1 \<or> 2147483647 < timeout this
                \<longrightarrow> setTimeout_delay (timeout this) = 1)
          \<and> (timers w = [] \<and> dt < setTimeout_delay (timeout this)
                \<longrightarrow> state (fst (elapse dt
                      (breaker_after (call this fn w), loop_after (call this fn w)))) = OPEN)
          \<and> state (fst (elapse (setTimeout_delay (timeout this))
                (breaker_after (call this fn w), loop_after (call this fn w)))) = HALF_OPEN)
      \<and> (failures this + 1 < threshold this \<longrightarrow>
            state (breaker_after (call this fn w)) = CLOSED
          \<and> timers (loop_after (call this fn w)) = timers w))"
  by (cases "fn (origin w)"; cases "fst (fn (origin w))")
     (auto simp: call_def new_CircuitBreaker_def dflt_def breaker_after_def loop_after_def Let_def
        elapse_def run_timers_def setTimeout_delay_def)


text \<open>The amended statement at threshold 2: the first failure counts, the second opens.\<close>

theorem closed_counts_failures_and_trips_witness:
  "state (new_CircuitBreaker (Some 2) None) = CLOSED
   \<and> isl (fst (always_fails (origin (idle_loop 0))))
   \<and> failures (breaker_after (call (new_CircuitBreaker (Some 2) None) always_fails (idle_loop 0)))
       = 1
   \<and> state (breaker_after (call (new_CircuitBreaker (Some 2) None) always_fails (idle_loop 0)))
       = CLOSED
   \<and> state \<lparr>failures = 1, threshold = 2, timeout = 60000, state = CLOSED\<rparr> = CLOSED
   \<and> state (breaker_after
        (call \<lparr>failures = 1, threshold = 2, timeout = 60000, state = CLOSED\<rparr>
           always_fails (idle_loop 10))) = OPEN
   \<and> timers (loop_after
        (call \<lparr>failures = 1, threshold = 2, timeout = 60000, state = CLOSED\<rparr>
           always_fails (idle_loop 10))) = [60010]"
proof -
  have first: "state (new_CircuitBreaker (Some 2) None) = CLOSED
      \<and> isl (fst (always_fails (origin (idle_loop 0))))
      \<and> 0 \<le> failures (new_CircuitBreaker (Some 2) None)
      \<and> failures (new_CircuitBreaker (Some 2) None) < 9007199254740992
      \<and> failures (new_CircuitBreaker (Some 2) None) + 1 < threshold (new_CircuitBreaker (Some 2) None)"
    by (simp add: new_CircuitBreaker_def dflt_def always_fails_def)
  have second: "state \<lparr>failures = 1, threshold = 2, timeout = 60000, state = CLOSED\<rparr> = CLOSED
      \<and> isl (fst (always_fails (origin (idle_loop 10))))
      \<and> 0 \<le> failures \<lparr>failures = 1, threshold = 2, timeout = 60000, state = CLOSED\<rparr>
      \<and> failures \<lparr>failures = 1, threshold = 2, timeout = 60000, state = CLOSED\<rparr>
          < 9007199254740992
      \<and> failures \<lparr>failures = 1, threshold = 2, timeout = 60000, state = CLOSED\<rparr> + 1
          \<ge> threshold \<lparr>failures = 1, threshold = 2, timeout = 60000, state = CLOSED\<rparr>"
    by (simp add: always_fails_def)
  show ?thesis
    using closed_counts_failures_and_trips
            [where this = "new_CircuitBreaker (Some 2) None" and fn = always_fails
               and w = "idle_loop 0"]
          closed_counts_failures_and_trips
            [where this = "\<lparr>failures = 1, threshold = 2, timeout = 60000, state = CLOSED\<rparr>"
               and fn = always_fails and w = "idle_loop 10"]
          first second
    by (simp add: new_CircuitBreaker_def dflt_def idle_loop_def setTimeout_delay_def)
qed

text \<open>
  No call brings a breaker back to the Closed state: \<^verbatim>\<open>call\<close> assigns \<^verbatim>\<open>'OPEN'\<close>, the
  timer assigns \<^verbatim>\<open>'HALF-OPEN'\<close>, and only the constructor assigns \<^verbatim>\<open>'CLOSED'\<close>.
\<close>

lemma call_never_closes:
  "state this \<noteq> CLOSED \<Longrightarrow> state (breaker_after (call this fn w)) \<noteq> CLOSED"
  by (cases "fn (origin w)"; cases "fst (fn (origin w))")
     (auto simp: call_def breaker_after_def Let_def)

lemma timer_never_closes: "state (fst (elapse dt (this, w))) = CLOSED \<Longrightarrow> state this = CLOSED"
  by (auto simp: elapse_def run_timers_def split: if_splits)

text \<open>
  C5. The code at a probe that succeeds. A breaker with threshold 2 is opened by two
  failures at time 0 and half-opened by its timer at time 60000; the next call, the
  probe, succeeds. Its value is returned and \<^verbatim>\<open>failures\<close> is reset to 0, but the state is
  still \<^verbatim>\<open>HALF-OPEN\<close>, not \<^verbatim>\<open>CLOSED\<close> as the claim says.
\<close>

theorem successful_probe_leaves_half_open:
  "fst tripped = \<lparr>failures = 2, threshold = 2, timeout = 60000, state = HALF_OPEN\<rparr>
   \<and> fst (call (fst tripped) always_succeeds (snd tripped)) = Inr (Value 7)
   \<and> breaker_after (call (fst tripped) always_succeeds (snd tripped))
       = \<lparr>failures = 0, threshold = 2, timeout = 60000, state = HALF_OPEN\<rparr>
   \<and> state (breaker_after (call (fst tripped) always_succeeds (snd tripped))) \<noteq> CLOSED"
  by (simp add: tripped_def call_def new_CircuitBreaker_def dflt_def always_fails_def
      always_succeeds_def idle_loop_def breaker_after_def loop_after_def elapse_def
      run_timers_def setTimeout_delay_def Let_def)

section \<open>Properties of the cache-aside readers\<close>

text \<open>
  C1, as stated, fails. The key \<^verbatim>\<open>user:1\<close> has a non-expired entry (expiry 100, time 0)
  whose value is the empty string. \<^verbatim>\<open>GET\<close> returns it, \<^verbatim>\<open>if (cached)\<close> is false for the
  empty string, and \<^verbatim>\<open>getUser\<close> calls the database and overwrites the entry. And when
  the entry is a string that is not JSON, the caller gets the error of \<^verbatim>\<open>JSON.parse\<close>, not
  a value.
\<close>

theorem empty_entry_is_a_miss_counterexample:
  "redis_get (cache (store_with ''user:1'' '''')) (cacheKey demo_runtime (JNum 1))
     = Inr (Some '''')
   \<and> fst (getUser demo_runtime (JNum 1) (store_with ''user:1'' '''')) = Inr ada
   \<and> db_calls (snd (getUser demo_runtime (JNum 1) (store_with ''user:1'' ''''))) = [JNum 1]
   \<and> live (cache (snd (getUser demo_runtime (JNum 1) (store_with ''user:1'' ''''))))
        ''user:1'' = Some ''ada''
   \<and> redis_get (cache (store_with ''user:1'' ''oops'')) (cacheKey demo_runtime (JNum 1))
     = Inr (Some ''oops'')
   \<and> fst (getUser demo_runtime (JNum 1) (store_with ''user:1'' ''oops''))
     = Inl (Error ''SyntaxError'')"
  by (simp add: store_with_def redis_get_def live_def getUser_def getUser_miss_def
      demo_runtime_def redis_set_ex_def with_entry_def cacheKey_def ada_def Let_def)

text \<open>
  C1, amended. For every key that has a non-expired entry holding a non-empty string, both
  readers settle at once with what \<^verbatim>\<open>JSON.parse\<close> makes of the string, the cached value
  or the parse error, and leave the world as it was: the database is not called and
  nothing is written.
\<close>

theorem cache_hit_short_circuits:
  assumes "redis_get (cache w) (cacheKey rt ident) = Inr (Some text)" and "text \<noteq> []"
  shows "getUser rt ident w = (JSON_parse rt text, w)
       \<and> cacheAsideExample rt ident w = (JSON_parse rt text, w)
       \<and> db_calls (snd (getUser rt ident w)) = db_calls w"
  using assms by (simp add: getUser_def cacheAsideExample_def)

text \<open>The amended statement at a store holding \<^verbatim>\<open>ada\<close> under \<^verbatim>\<open>user:1\<close>.\<close>

theorem cache_hit_short_circuits_witness:
  "redis_get (cache (store_with ''user:1'' ''ada'')) (cacheKey demo_runtime (JNum 1))
     = Inr (Some ''ada'')
   \<and> ''ada'' \<noteq> []
   \<and> getUser demo_runtime (JNum 1) (store_with ''user:1'' ''ada'')
        = (Inr ada, store_with ''user:1'' ''ada'')
   \<and> db_calls (snd (getUser demo_runtime (JNum 1) (store_with ''user:1'' ''ada''))) = []"
proof -
  have hit: "redis_get (cache (store_with ''user:1'' ''ada'')) (cacheKey demo_runtime (JNum 1))
               = Inr (Some ''ada'')"
    by (simp add: store_with_def redis_get_def live_def cacheKey_def demo_runtime_def)
  have ne: "''ada'' \<noteq> []" by simp
  have p: "JSON_parse demo_runtime ''ada'' = Inr ada" by (simp add: demo_runtime_def)
  have d: "db_calls (store_with ''user:1'' ''ada'') = []" by (simp add: store_with_def)
  show ?thesis
    using cache_hit_short_circuits [OF hit ne] hit p d by simp
qed

text \<open>On a miss a reader is the code after its early return; otherwise it writes nothing.\<close>

lemma misses_cases:
  "misses w k \<Longrightarrow> redis_get (cache w) k = Inr None \<or> redis_get (cache w) k = Inr (Some [])"
  by (auto simp: misses_def truthy_def split: sum.splits option.splits)

lemma getUser_on_miss:
  "misses w (cacheKey rt ident) \<Longrightarrow> getUser rt ident w = getUser_miss rt ident w"
  using misses_cases [of w "cacheKey rt ident"] by (auto simp: getUser_def)

lemma getUser_not_miss:
  "\<not> misses w (cacheKey rt ident) \<Longrightarrow> snd (getUser rt ident w) = w"
  by (auto simp: getUser_def misses_def truthy_def split: sum.splits option.splits)

lemma cacheAsideExample_on_miss:
  "misses w (cacheKey rt ident) \<Longrightarrow> cacheAsideExample rt ident w = cacheAside_miss rt ident w"
  using misses_cases [of w "cacheKey rt ident"] by (auto simp: cacheAsideExample_def)

lemma cacheAsideExample_not_miss:
  "\<not> misses w (cacheKey rt ident) \<Longrightarrow> snd (cacheAsideExample rt ident w) = w"
  by (auto simp: cacheAsideExample_def misses_def truthy_def split: sum.splits option.splits)

lemma getUser_miss_cases:
  "getUser_miss rt ident w =
     (case db_findById rt (db_calls w) ident of
        Inl err \<Rightarrow> (Inl err, w\<lparr>db_calls := db_calls w @ [ident]\<rparr>)
      | Inr user \<Rightarrow>
          (case set_fault (cache w) of
             Some err \<Rightarrow> (Inl err, w\<lparr>db_calls := db_calls w @ [ident]\<rparr>)
           | None \<Rightarrow>
               (Inr user,
                w\<lparr>db_calls := db_calls w @ [ident],
                  cache := with_entry (cache w) (cacheKey rt ident) (JSON_stringify rt user)
                             3600\<rparr>)))"
  by (simp add: getUser_miss_def redis_set_ex_def Let_def split: sum.splits option.splits)

lemma cacheAside_miss_cases:
  "cacheAside_miss rt ident w =
     (case set_fault (cache w) of
        Some err \<Rightarrow> (Inl err, w)
      | None \<Rightarrow>
          (Inr (simulated_user ident),
           w\<lparr>cache := with_entry (cache w) (cacheKey rt ident)
                        (JSON_stringify rt (simulated_user ident)) 600\<rparr>))"
  by (simp add: cacheAside_miss_def redis_set_ex_def Let_def split: option.splits)

lemma set_log_with_entry: "set_log (with_entry r k text ttl) \<noteq> set_log r"
  by (simp add: with_entry_def)

text \<open>
  C8, as stated, fails. The read misses and the origin fetch succeeds, but Redis rejects
  the write: no entry is written for the key, and the caller gets the write's error
  instead of the value.
\<close>

theorem rejected_write_counterexample:
  "misses unwritable_store (cacheKey demo_runtime (JNum 1))
   \<and> db_findById demo_runtime (db_calls unwritable_store) (JNum 1) = Inr ada
   \<and> fst (getUser demo_runtime (JNum 1) unwritable_store) = Inl (Error ''OOM'')
   \<and> entries (cache (snd (getUser demo_runtime (JNum 1) unwritable_store))) ''user:1'' = None
   \<and> set_log (cache (snd (getUser demo_runtime (JNum 1) unwritable_store))) = []"
  by (simp add: unwritable_store_def empty_store_def misses_def truthy_def redis_get_def
      live_def getUser_def getUser_miss_def redis_set_ex_def cacheKey_def demo_runtime_def
      Let_def)

text \<open>
  C8, amended. \<^verbatim>\<open>getUser\<close> applies a \<^verbatim>\<open>SET\<close> exactly when it fetches from the origin (the
  read was a miss), the fetch succeeds and Redis accepts the write: then the entry
  written for the key is the serialised value with expiry \<open>now + ttl\<close> (ttl 3600) and the
  value is returned. When Redis rejects the write, the store is unchanged and the
  write's error is what the caller gets. When the fetch fails, the origin's error is what
  the caller gets and the store is unchanged. \<^verbatim>\<open>cacheAsideExample\<close>, whose simulated fetch
  cannot fail, writes (ttl 600) and returns the value exactly when the read was a miss
  and Redis accepts the write.
\<close>

theorem cache_written_iff_origin_succeeds:
  "(set_log (cache (snd (getUser rt ident w))) \<noteq> set_log (cache w))
      = (misses w (cacheKey rt ident) \<and> \<not> isl (db_findById rt (db_calls w) ident)
         \<and> set_fault (cache w) = None)
   \<and> (misses w (cacheKey rt ident) \<and> db_findById rt (db_calls w) ident = Inr user
        \<and> set_fault (cache w) = None \<longrightarrow>
        getUser rt ident w
          = (Inr user,
             w\<lparr>db_calls := db_calls w @ [ident],
               cache := with_entry (cache w) (cacheKey rt ident) (JSON_stringify rt user)
                          3600\<rparr>))
   \<and> entries (with_entry (cache w) (cacheKey rt ident) text ttl) (cacheKey rt ident)
        = Some (text, Some (now (cache w) + ttl))
   \<and> (misses w (cacheKey rt ident) \<and> db_findById rt (db_calls w) ident = Inr user
        \<and> set_fault (cache w) = Some werr \<longrightarrow>
        getUser rt ident w = (Inl werr, w\<lparr>db_calls := db_calls w @ [ident]\<rparr>))
   \<and> (misses w (cacheKey rt ident) \<and> db_findById rt (db_calls w) ident = Inl err \<longrightarrow>
        getUser rt ident w = (Inl err, w\<lparr>db_calls := db_calls w @ [ident]\<rparr>)
      \<and> cache (snd (getUser rt ident w)) = cache w)
   \<and> (set_log (cache (snd (cacheAsideExample rt ident w))) \<noteq> set_log (cache w))
      = (misses w (cacheKey rt ident) \<and> set_fault (cache w) = None)
   \<and> (misses w (cacheKey rt ident) \<and> set_fault (cache w) = None \<longrightarrow>
        cacheAsideExample rt ident w
          = (Inr (simulated_user ident),
             w\<lparr>cache := with_entry (cache w) (cacheKey rt ident)
                          (JSON_stringify rt (simulated_user ident)) 600\<rparr>))
   \<and> (misses w (cacheKey rt ident) \<and> set_fault (cache w) = Some werr \<longrightarrow>
        cacheAsideExample rt ident w = (Inl werr, w))"
proof -
  let ?k = "cacheKey rt ident"
  have iff: "(set_log (cache (snd (getUser rt ident w))) \<noteq> set_log (cache w))
      = (misses w ?k \<and> \<not> isl (db_findById rt (db_calls w) ident) \<and> set_fault (cache w) = None)"
  proof (cases "misses w ?k")
    case False
    then show ?thesis by (simp add: getUser_not_miss)
  next
    case True
    then show ?thesis
      by (simp add: getUser_on_miss getUser_miss_cases set_log_with_entry
          split: sum.splits option.splits)
  qed
  have written: "getUser rt ident w
      = (Inr user,
         w\<lparr>db_calls := db_calls w @ [ident],
           cache := with_entry (cache w) ?k (JSON_stringify rt user) 3600\<rparr>)"
    if "misses w ?k" "db_findById rt (db_calls w) ident = Inr user" "set_fault (cache w) = None"
    using that by (simp add: getUser_on_miss getUser_miss_cases)
  have entry: "entries (with_entry (cache w) ?k text ttl) ?k
                 = Some (text, Some (now (cache w) + ttl))"
    by (simp add: with_entry_def)
  have rejected: "getUser rt ident w = (Inl werr, w\<lparr>db_calls := db_calls w @ [ident]\<rparr>)"
    if "misses w ?k" "db_findById rt (db_calls w) ident = Inr user"
       "set_fault (cache w) = Some werr"
    using that by (simp add: getUser_on_miss getUser_miss_cases)
  have failed: "getUser rt ident w = (Inl err, w\<lparr>db_calls := db_calls w @ [ident]\<rparr>)
      \<and> cache (snd (getUser rt ident w)) = cache w"
    if "misses w ?k" "db_findById rt (db_calls w) ident = Inl err"
    using that by (simp add: getUser_on_miss getUser_miss_cases)
  have iff': "(set_log (cache (snd (cacheAsideExample rt ident w))) \<noteq> set_log (cache w))
      = (misses w ?k \<and> set_fault (cache w) = None)"
  proof (cases "misses w ?k")
    case False
    then show ?thesis by (simp add: cacheAsideExample_not_miss)
  next
    case True
    then show ?thesis
      by (simp add: cacheAsideExample_on_miss cacheAside_miss_cases set_log_with_entry
          split: option.splits)
  qed
  have simulated: "cacheAsideExample rt ident w
      = (Inr (simulated_user ident),
         w\<lparr>cache := with_entry (cache w) ?k (JSON_stringify rt (simulated_user ident)) 600\<rparr>)"
    if "misses w ?k" "set_fault (cache w) = None"
    using that by (simp add: cacheAsideExample_on_miss cacheAside_miss_cases)
  have rejected': "cacheAsideExample rt ident w = (Inl werr, w)"
    if "misses w ?k" "set_fault (cache w) = Some werr"
    using that by (simp add: cacheAsideExample_on_miss cacheAside_miss_cases)
  show ?thesis
    using iff written entry rejected failed iff' simulated rejected' by blast
qed

text \<open>
  The amended statement at an empty store (identifier 1 is found and written, identifier
  2 makes the database fail) and at the store that rejects writes.
\<close>

theorem cache_written_iff_origin_succeeds_witness:
  "misses empty_store (cacheKey demo_runtime (JNum 1))
   \<and> db_findById demo_runtime (db_calls empty_store) (JNum 1) = Inr ada
   \<and> set_fault (cache empty_store) = None
   \<and> fst (getUser demo_runtime (JNum 1) empty_store) = Inr ada
   \<and> entries (cache (snd (getUser demo_runtime (JNum 1) empty_store))) ''user:1''
       = Some (''ada'', Some 3600)
   \<and> misses empty_store (cacheKey demo_runtime (JNum 2))
   \<and> db_findById demo_runtime (db_calls empty_store) (JNum 2) = Inl (Error ''db down'')
   \<and> fst (getUser demo_runtime (JNum 2) empty_store) = Inl (Error ''db down'')
   \<and> cache (snd (getUser demo_runtime (JNum 2) empty_store)) = cache empty_store
   \<and> misses unwritable_store (cacheKey demo_runtime (JNum 1))
   \<and> db_findById demo_runtime (db_calls unwritable_store) (JNum 1) = Inr ada
   \<and> set_fault (cache unwritable_store) = Some (Error ''OOM'')
   \<and> getUser demo_runtime (JNum 1) unwritable_store
       = (Inl (Error ''OOM''), unwritable_store\<lparr>db_calls := [JNum 1]\<rparr>)"
proof -
  have m1: "misses empty_store (cacheKey demo_runtime (JNum 1))
            \<and> db_findById demo_runtime (db_calls empty_store) (JNum 1) = Inr ada
            \<and> set_fault (cache empty_store) = None"
    by (simp add: misses_def empty_store_def redis_get_def live_def truthy_def demo_runtime_def)
  have m2: "misses empty_store (cacheKey demo_runtime (JNum 2))
            \<and> db_findById demo_runtime (db_calls empty_store) (JNum 2) = Inl (Error ''db down'')"
    by (simp add: misses_def empty_store_def redis_get_def live_def truthy_def demo_runtime_def)
  have m3: "misses unwritable_store (cacheKey demo_runtime (JNum 1))
            \<and> db_findById demo_runtime (db_calls unwritable_store) (JNum 1) = Inr ada
            \<and> set_fault (cache unwritable_store) = Some (Error ''OOM'')"
    by (simp add: misses_def unwritable_store_def empty_store_def redis_get_def live_def
        truthy_def demo_runtime_def)
  have k: "cacheKey demo_runtime (JNum 1) = ''user:1''"
    by (simp add: cacheKey_def demo_runtime_def)
  have s: "JSON_stringify demo_runtime ada = ''ada''" "now (cache empty_store) = 0"
    "db_calls unwritable_store = []"
    by (simp_all add: demo_runtime_def empty_store_def unwritable_store_def)
  have found: "getUser demo_runtime (JNum 1) empty_store
      = (Inr ada,
         empty_store\<lparr>db_calls := db_calls empty_store @ [JNum 1],
           cache := with_entry (cache empty_store) (cacheKey demo_runtime (JNum 1))
                      (JSON_stringify demo_runtime ada) 3600\<rparr>)"
    using cache_written_iff_origin_succeeds
            [where rt = demo_runtime and ident = "JNum 1" and w = empty_store and user = ada]
          m1
    by blast
  have missing: "getUser demo_runtime (JNum 2) empty_store
        = (Inl (Error ''db down''), empty_store\<lparr>db_calls := db_calls empty_store @ [JNum 2]\<rparr>)
      \<and> cache (snd (getUser demo_runtime (JNum 2) empty_store)) = cache empty_store"
    using cache_written_iff_origin_succeeds
            [where rt = demo_runtime and ident = "JNum 2" and w = empty_store
               and err = "Error ''db down''"]
          m2
    by blast
  have refused: "getUser demo_runtime (JNum 1) unwritable_store
        = (Inl (Error ''OOM''),
           unwritable_store\<lparr>db_calls := db_calls unwritable_store @ [JNum 1]\<rparr>)"
    using cache_written_iff_origin_succeeds
            [where rt = demo_runtime and ident = "JNum 1" and w = unwritable_store
               and user = ada and werr = "Error ''OOM''"]
          m3
    by blast
  show ?thesis
    using m1 m2 m3 found missing refused
    by (simp add: k s with_entry_def)
qed

text \<open>
  C9, as stated, fails. When Redis rejects the read, \<^verbatim>\<open>getUser\<close> rejects with that error
  and never calls the database, although the database has the user. When Redis rejects
  the write, the database has been called and has answered, and the caller still gets the
  write's error instead of the user.
\<close>

theorem cache_errors_reach_the_caller_counterexample:
  "getUser demo_runtime (JNum 1) unreadable_store
     = (Inl (Error ''ECONNREFUSED''), unreadable_store)
   \<and> db_calls (snd (getUser demo_runtime (JNum 1) unreadable_store)) = []
   \<and> db_findById demo_runtime [] (JNum 1) = Inr ada
   \<and> fst (getUser demo_runtime (JNum 1) unwritable_store) = Inl (Error ''OOM'')
   \<and> db_calls (snd (getUser demo_runtime (JNum 1) unwritable_store)) = [JNum 1]
   \<and> fst (cacheAsideExample demo_runtime (JNum 1) unwritable_store) = Inl (Error ''OOM'')"
  by (simp add: unreadable_store_def unwritable_store_def empty_store_def getUser_def
      getUser_miss_def cacheAsideExample_def cacheAside_miss_def redis_get_def redis_set_ex_def
      live_def demo_runtime_def cacheKey_def Let_def)

text \<open>
  C9, amended. Errors raised by the cache store are surfaced to the caller. A failing read
  makes both readers fail with that error, the world untouched and the origin not
  contacted. A failing write after a miss makes both readers fail with that error:
  \<^verbatim>\<open>getUser\<close> has called the origin by then, and the value it got is dropped.
\<close>

theorem cache_errors_reach_the_caller:
  "(get_fault (cache w) = Some err \<longrightarrow>
      getUser rt ident w = (Inl err, w) \<and> cacheAsideExample rt ident w = (Inl err, w))
   \<and> (set_fault (cache w) = Some err \<and> misses w (cacheKey rt ident)
        \<and> db_findById rt (db_calls w) ident = Inr user \<longrightarrow>
      getUser rt ident w = (Inl err, w\<lparr>db_calls := db_calls w @ [ident]\<rparr>))
   \<and> (set_fault (cache w) = Some err \<and> misses w (cacheKey rt ident) \<longrightarrow>
      cacheAsideExample rt ident w = (Inl err, w))"
proof -
  have rd: "getUser rt ident w = (Inl err, w) \<and> cacheAsideExample rt ident w = (Inl err, w)"
    if "get_fault (cache w) = Some err"
    using that by (simp add: getUser_def cacheAsideExample_def redis_get_def)
  have wr: "getUser rt ident w = (Inl err, w\<lparr>db_calls := db_calls w @ [ident]\<rparr>)"
    if "set_fault (cache w) = Some err" "misses w (cacheKey rt ident)"
       "db_findById rt (db_calls w) ident = Inr user"
    using that by (simp add: getUser_on_miss getUser_miss_cases)
  have wr': "cacheAsideExample rt ident w = (Inl err, w)"
    if "set_fault (cache w) = Some err" "misses w (cacheKey rt ident)"
    using that by (simp add: cacheAsideExample_on_miss cacheAside_miss_cases)
  show ?thesis using rd wr wr' by blast
qed

text \<open>The amended statement at the store that rejects reads and at the one that rejects writes.\<close>

theorem cache_errors_reach_the_caller_witness:
  "get_fault (cache unreadable_store) = Some (Error ''ECONNREFUSED'')
   \<and> getUser demo_runtime (JNum 1) unreadable_store
       = (Inl (Error ''ECONNREFUSED''), unreadable_store)
   \<and> set_fault (cache unwritable_store) = Some (Error ''OOM'')
   \<and> misses unwritable_store (cacheKey demo_runtime (JNum 1))
   \<and> db_findById demo_runtime (db_calls unwritable_store) (JNum 1) = Inr ada
   \<and> fst (getUser demo_runtime (JNum 1) unwritable_store) = Inl (Error ''OOM'')
   \<and> fst (cacheAsideExample demo_runtime (JNum 1) unwritable_store) = Inl (Error ''OOM'')"
proof -
  have r: "get_fault (cache unreadable_store) = Some (Error ''ECONNREFUSED'')"
    by (simp add: unreadable_store_def)
  have w: "set_fault (cache unwritable_store) = Some (Error ''OOM'')
           \<and> misses unwritable_store (cacheKey demo_runtime (JNum 1))
           \<and> db_findById demo_runtime (db_calls unwritable_store) (JNum 1) = Inr ada"
    by (simp add: unwritable_store_def empty_store_def misses_def redis_get_def live_def
        truthy_def demo_runtime_def)
  show ?thesis
    using cache_errors_reach_the_caller
            [where w = unreadable_store and err = "Error ''ECONNREFUSED''"
               and rt = demo_runtime and ident = "JNum 1" and user = ada]
          cache_errors_reach_the_caller
            [where w = unwritable_store and err = "Error ''OOM''"
               and rt = demo_runtime and ident = "JNum 1" and user = ada]
          r w
    by simp
qed

section \<open>Properties of concurrent callers\<close>

text \<open>A caller alone, given all its turns, is the reader itself.\<close>

lemma getUser_by_steps:
  "concurrent rt GetUser ident 1 [0, 0, 0] w
     = ([Settled (fst (getUser rt ident w))], snd (getUser rt ident w))"
  by (simp add: concurrent_def turn_def getUser_def getUser_miss_def Let_def
      split: sum.splits option.splits)

lemma cacheAsideExample_by_steps:
  "concurrent rt CacheAsideExample ident 1 [0, 0] w
     = ([Settled (fst (cacheAsideExample rt ident w))], snd (cacheAsideExample rt ident w))"
  by (simp add: concurrent_def turn_def cacheAsideExample_def cacheAside_miss_def Let_def
      split: sum.splits option.splits)

text \<open>Replacing one caller changes what the callers hold by that caller's share only.\<close>

lemma outcomes_update:
  "i < length ts \<Longrightarrow>
   mset (outcomes (ts[i := t])) + mset (held (ts ! i)) = mset (outcomes ts) + mset (held t)"
proof (induction ts arbitrary: i)
  case Nil
  then show ?case by simp
next
  case (Cons a ts)
  show ?case
  proof (cases i)
    case 0
    then show ?thesis by (simp add: outcomes_def)
  next
    case (Suc j)
    then have "j < length ts" using Cons.prems by simp
    from Cons.IH [OF this] show ?thesis
      using Suc by (simp add: outcomes_def algebra_simps)
  qed
qed

lemma outcomes_update_same:
  assumes "i < length ts" and "held t = held (ts ! i)"
  shows "mset (outcomes (ts[i := t])) = mset (outcomes ts)"
    and "length (outcomes (ts[i := t])) = length (outcomes ts)"
proof -
  show m: "mset (outcomes (ts[i := t])) = mset (outcomes ts)"
    using outcomes_update [OF assms(1), of t] assms(2) by simp
  show "length (outcomes (ts[i := t])) = length (outcomes ts)"
    using m by (metis size_mset)
qed

lemma outcomes_update_new:
  assumes "i < length ts" and "held (ts ! i) = []" and "held t = [r]"
  shows "mset (outcomes (ts[i := t])) = mset (outcomes ts) + {#r#}"
    and "length (outcomes (ts[i := t])) = Suc (length (outcomes ts))"
proof -
  show m: "mset (outcomes (ts[i := t])) = mset (outcomes ts) + {#r#}"
    using outcomes_update [OF assms(1), of t] assms(2,3) by simp
  have "size (mset (outcomes (ts[i := t]))) = size (mset (outcomes ts) + {#r#})"
    using m by simp
  then show "length (outcomes (ts[i := t])) = Suc (length (outcomes ts))"
    by simp
qed

lemma settled_update:
  "i < length ts \<Longrightarrow>
   length (filter is_settled (ts[i := t])) + (if is_settled (ts ! i) then 1 else 0)
     = length (filter is_settled ts) + (if is_settled t then 1 else 0)"
proof (induction ts arbitrary: i)
  case Nil
  then show ?case by simp
next
  case (Cons a ts)
  show ?case
  proof (cases i)
    case 0
    then show ?thesis by simp
  next
    case (Suc j)
    then have "j < length ts" using Cons.prems by simp
    from Cons.IH [OF this] show ?thesis using Suc by simp
  qed
qed

lemma list_all_update: "list_all P ts \<Longrightarrow> P t \<Longrightarrow> list_all P (ts[i := t])"
  by (induction ts arbitrary: i) (auto split: nat.splits)

lemma list_ex_update:
  "list_ex P (ts[i := t]) \<Longrightarrow> \<not> P t \<Longrightarrow> list_ex P ts"
  by (induction ts arbitrary: i) (auto split: nat.splits)

lemma list_all_nth: "list_all P ts \<Longrightarrow> i < length ts \<Longrightarrow> P (ts ! i)"
  by (simp add: list_all_length)

lemma list_ex_nth: "i < length ts \<Longrightarrow> P (ts ! i) \<Longrightarrow> list_ex P ts"
  by (auto simp: list_ex_iff)

lemma step_get_miss:
  "misses w (cacheKey rt ident) \<Longrightarrow> step rt (AtGet rd ident) w = (after_miss rd ident, w)"
  using misses_cases [of w "cacheKey rt ident"] by auto

lemma fetch_invI:
  assumes "length ts = n"
    and "list_all (\<lambda>t. case t of AtGet rd i \<Rightarrow> rd = GetUser \<and> i = ident
                       | AtDb i \<Rightarrow> i = ident
                       | AtSet i user ttl \<Rightarrow> i = ident \<and> ttl = 3600
                       | Settled r \<Rightarrow> True) ts"
    and "list_ex is_read ts \<longrightarrow> cache w' = cache w"
    and "set_fault (cache w') = None"
    and "db_calls w' = db_calls w @ replicate (length (outcomes ts)) ident"
    and "mset (outcomes ts)
          = mset (map (\<lambda>k. db_findById rt (db_calls w @ replicate k ident) ident)
                   [0..<length (outcomes ts)])"
  shows "fetch_inv rt w ident n (ts, w')"
  unfolding fetch_inv_def using assms by simp

lemma fetch_inv_turn:
  assumes miss: "misses w (cacheKey rt ident)"
    and inv: "fetch_inv rt w ident n (ts, w')"
    and rf: "i < length ts \<and> is_write (ts ! i) \<longrightarrow> \<not> list_ex is_read ts"
  shows "fetch_inv rt w ident n (turn rt i (ts, w'))"
proof (cases "i < length ts")
  case False
  then have "turn rt i (ts, w') = (ts, w')" by (simp add: turn_def)
  then show ?thesis using inv by simp
next
  case True
  let ?P = "\<lambda>t. case t of AtGet rd i \<Rightarrow> rd = GetUser \<and> i = ident
                       | AtDb i \<Rightarrow> i = ident
                       | AtSet i user ttl \<Rightarrow> i = ident \<and> ttl = 3600
                       | Settled r \<Rightarrow> True"
  let ?f = "\<lambda>k. db_findById rt (db_calls w @ replicate k ident) ident"
  have len: "length ts = n" and shape: "list_all ?P ts"
    and same: "list_ex is_read ts \<longrightarrow> cache w' = cache w"
    and ok: "set_fault (cache w') = None"
    and calls: "db_calls w' = db_calls w @ replicate (length (outcomes ts)) ident"
    and answers: "mset (outcomes ts) = mset (map ?f [0..<length (outcomes ts)])"
    using inv unfolding fetch_inv_def by simp_all
  have here: "?P (ts ! i)" using shape True by (rule list_all_nth)
  show ?thesis
  proof (cases "ts ! i")
    case (AtGet rd j)
    have j: "rd = GetUser" "j = ident" using here unfolding AtGet by simp_all
    have "is_read (ts ! i)" unfolding AtGet by simp
    then have "list_ex is_read ts" using True by (intro list_ex_nth [of i])
    then have "cache w' = cache w" using same by simp
    then have "misses w' (cacheKey rt ident)" using miss by (simp add: misses_def)
    then have "step rt (AtGet GetUser ident) w' = (AtDb ident, w')"
      using step_get_miss [of w' rt ident GetUser] by simp
    then have st: "step rt (ts ! i) w' = (AtDb ident, w')" unfolding AtGet j .
    have t: "turn rt i (ts, w') = (ts[i := AtDb ident], w')"
      using True st by (simp add: turn_def)
    have h: "held (AtDb ident) = held (ts ! i)" unfolding AtGet by simp
    have 1: "length (ts[i := AtDb ident]) = n" using len by simp
    have 2: "list_all ?P (ts[i := AtDb ident])" using shape by (rule list_all_update) simp
    have 3: "list_ex is_read (ts[i := AtDb ident]) \<longrightarrow> cache w' = cache w"
      using \<open>cache w' = cache w\<close> by simp
    have 5: "db_calls w' = db_calls w @ replicate (length (outcomes (ts[i := AtDb ident]))) ident"
      using calls outcomes_update_same(2) [OF True h] by simp
    have 6: "mset (outcomes (ts[i := AtDb ident]))
              = mset (map ?f [0..<length (outcomes (ts[i := AtDb ident]))])"
      using answers outcomes_update_same [OF True h] by simp
    show ?thesis unfolding t by (rule fetch_invI [OF 1 2 3 ok 5 6])
  next
    case (AtDb j)
    have j: "j = ident" using here unfolding AtDb by simp
    let ?m = "length (outcomes ts)"
    let ?w1 = "w'\<lparr>db_calls := db_calls w' @ [ident]\<rparr>"
    obtain t' where t': "t' = (case ?f ?m of Inl err \<Rightarrow> Settled (Inl err)
                                | Inr user \<Rightarrow> AtSet ident user 3600)" by simp
    have "step rt (AtDb ident) w' = (t', ?w1)"
      unfolding t' using calls by (simp add: Let_def split: sum.splits)
    then have st: "step rt (ts ! i) w' = (t', ?w1)" unfolding AtDb j .
    have t: "turn rt i (ts, w') = (ts[i := t'], ?w1)"
      using True st by (simp add: turn_def)
    have ht: "held t' = [?f ?m]" unfolding t' by (simp split: sum.splits)
    have hi: "held (ts ! i) = []" unfolding AtDb by simp
    have Pt: "?P t'" unfolding t' by (simp split: sum.splits)
    have nr: "\<not> is_read t'" unfolding t' by (simp split: sum.splits)
    have l': "length (outcomes (ts[i := t'])) = Suc ?m"
      using outcomes_update_new(2) [OF True hi ht] .
    have 1: "length (ts[i := t']) = n" using len by simp
    have 2: "list_all ?P (ts[i := t'])" using shape Pt by (rule list_all_update)
    have 3: "list_ex is_read (ts[i := t']) \<longrightarrow> cache ?w1 = cache w"
    proof
      assume "list_ex is_read (ts[i := t'])"
      then have "list_ex is_read ts" using nr by (rule list_ex_update)
      then show "cache ?w1 = cache w" using same by simp
    qed
    have 4: "set_fault (cache ?w1) = None" using ok by simp
    have 5: "db_calls ?w1 = db_calls w @ replicate (length (outcomes (ts[i := t']))) ident"
      unfolding l' using calls by (simp add: replicate_append_same)
    have "mset (outcomes (ts[i := t'])) = mset (outcomes ts) + {#?f ?m#}"
      using outcomes_update_new(1) [OF True hi ht] .
    also have "\<dots> = mset (map ?f [0..<?m]) + {#?f ?m#}" using answers by simp
    also have "\<dots> = mset (map ?f [0..<Suc ?m])" by simp
    finally have 6: "mset (outcomes (ts[i := t']))
              = mset (map ?f [0..<length (outcomes (ts[i := t']))])"
      unfolding l' .
    show ?thesis unfolding t by (rule fetch_invI [OF 1 2 3 4 5 6])
  next
    case (AtSet j user ttl)
    have j: "j = ident" "ttl = 3600" using here unfolding AtSet by simp_all
    have "is_write (ts ! i)" unfolding AtSet by simp
    then have quiet: "\<not> list_ex is_read ts" using rf True by simp
    let ?c = "with_entry (cache w') (cacheKey rt ident) (JSON_stringify rt user) 3600"
    let ?t = "Settled (Inr user)"
    have "step rt (AtSet ident user 3600) w' = (?t, w'\<lparr>cache := ?c\<rparr>)"
      using ok by (simp add: redis_set_ex_def)
    then have st: "step rt (ts ! i) w' = (?t, w'\<lparr>cache := ?c\<rparr>)" unfolding AtSet j .
    have t: "turn rt i (ts, w') = (ts[i := ?t], w'\<lparr>cache := ?c\<rparr>)"
      using True st by (simp add: turn_def)
    have h: "held ?t = held (ts ! i)" unfolding AtSet by simp
    have 1: "length (ts[i := ?t]) = n" using len by simp
    have 2: "list_all ?P (ts[i := ?t])" using shape by (rule list_all_update) simp
    have 3: "list_ex is_read (ts[i := ?t]) \<longrightarrow> cache (w'\<lparr>cache := ?c\<rparr>) = cache w"
    proof
      assume "list_ex is_read (ts[i := ?t])"
      then have "list_ex is_read ts" by (rule list_ex_update) simp
      then show "cache (w'\<lparr>cache := ?c\<rparr>) = cache w" using quiet by simp
    qed
    have 4: "set_fault (cache (w'\<lparr>cache := ?c\<rparr>)) = None"
      using ok by (simp add: with_entry_def)
    have 5: "db_calls (w'\<lparr>cache := ?c\<rparr>)
               = db_calls w @ replicate (length (outcomes (ts[i := ?t]))) ident"
      using calls outcomes_update_same(2) [OF True h] by simp
    have 6: "mset (outcomes (ts[i := ?t]))
              = mset (map ?f [0..<length (outcomes (ts[i := ?t]))])"
      using answers outcomes_update_same [OF True h] by simp
    show ?thesis unfolding t by (rule fetch_invI [OF 1 2 3 4 5 6])
  next
    case (Settled r)
    have "step rt (ts ! i) w' = (ts ! i, w')" unfolding Settled by simp
    then have "turn rt i (ts, w') = (ts, w')"
      using True by (simp add: turn_def)
    then show ?thesis using inv by simp
  qed
qed

lemma fetch_inv_run:
  assumes "misses w (cacheKey rt ident)"
  shows "fetch_inv rt w ident n tw \<Longrightarrow> reads_first rt sched tw
         \<Longrightarrow> fetch_inv rt w ident n (run rt sched tw)"
proof (induction sched arbitrary: tw)
  case Nil
  then show ?case by simp
next
  case (Cons i sched)
  obtain ts w' where tw: "tw = (ts, w')" by (cases tw)
  have "fetch_inv rt w ident n (turn rt i tw)"
    using fetch_inv_turn [OF assms, of n ts w' i] Cons.prems by (simp add: tw)
  then show ?case using Cons.IH Cons.prems(2) by simp
qed

lemma outcomes_replicate_read: "outcomes (replicate n (AtGet rd ident)) = []"
  by (induction n) (simp_all add: outcomes_def)

lemma fetch_inv_start:
  "set_fault (cache w) = None \<Longrightarrow> fetch_inv rt w ident n (replicate n (AtGet GetUser ident), w)"
  by (simp add: fetch_inv_def outcomes_replicate_read list_all_iff)

lemma write_invI:
  assumes "length ts = n"
    and "list_all (\<lambda>t. case t of AtGet rd i \<Rightarrow> rd = CacheAsideExample \<and> i = ident
                       | AtDb i \<Rightarrow> False
                       | AtSet i user ttl \<Rightarrow> i = ident \<and> user = simulated_user ident \<and> ttl = 600
                       | Settled r \<Rightarrow> r = Inr (simulated_user ident)) ts"
    and "list_ex is_read ts \<longrightarrow> cache w' = cache w"
    and "set_fault (cache w') = None"
    and "db_calls w' = db_calls w"
    and "set_log (cache w')
          = set_log (cache w)
            @ replicate (length (filter is_settled ts))
                (cacheKey rt ident, JSON_stringify rt (simulated_user ident), 600)"
  shows "write_inv rt w ident n (ts, w')"
  unfolding write_inv_def using assms by simp

lemma write_inv_turn:
  assumes miss: "misses w (cacheKey rt ident)"
    and inv: "write_inv rt w ident n (ts, w')"
    and rf: "i < length ts \<and> is_write (ts ! i) \<longrightarrow> \<not> list_ex is_read ts"
  shows "write_inv rt w ident n (turn rt i (ts, w'))"
proof (cases "i < length ts")
  case False
  then have "turn rt i (ts, w') = (ts, w')" by (simp add: turn_def)
  then show ?thesis using inv by simp
next
  case True
  let ?P = "\<lambda>t. case t of AtGet rd i \<Rightarrow> rd = CacheAsideExample \<and> i = ident
                       | AtDb i \<Rightarrow> False
                       | AtSet i user ttl \<Rightarrow> i = ident \<and> user = simulated_user ident \<and> ttl = 600
                       | Settled r \<Rightarrow> r = Inr (simulated_user ident)"
  let ?cmd = "(cacheKey rt ident, JSON_stringify rt (simulated_user ident), 600::int)"
  have len: "length ts = n" and shape: "list_all ?P ts"
    and same: "list_ex is_read ts \<longrightarrow> cache w' = cache w"
    and ok: "set_fault (cache w') = None"
    and calls: "db_calls w' = db_calls w"
    and sets: "set_log (cache w')
                 = set_log (cache w) @ replicate (length (filter is_settled ts)) ?cmd"
    using inv unfolding write_inv_def by simp_all
  have here: "?P (ts ! i)" using shape True by (rule list_all_nth)
  show ?thesis
  proof (cases "ts ! i")
    case (AtGet rd j)
    have j: "rd = CacheAsideExample" "j = ident" using here unfolding AtGet by simp_all
    let ?t = "AtSet ident (simulated_user ident) 600"
    have "is_read (ts ! i)" unfolding AtGet by simp
    then have "list_ex is_read ts" using True by (intro list_ex_nth [of i])
    then have "cache w' = cache w" using same by simp
    then have "misses w' (cacheKey rt ident)" using miss by (simp add: misses_def)
    then have "step rt (AtGet CacheAsideExample ident) w' = (?t, w')"
      using step_get_miss [of w' rt ident CacheAsideExample] by simp
    then have st: "step rt (ts ! i) w' = (?t, w')" unfolding AtGet j .
    have t: "turn rt i (ts, w') = (ts[i := ?t], w')"
      using True st by (simp add: turn_def)
    have c: "length (filter is_settled (ts[i := ?t])) = length (filter is_settled ts)"
      using settled_update [OF True, of ?t] unfolding AtGet by simp
    have 1: "length (ts[i := ?t]) = n" using len by simp
    have 2: "list_all ?P (ts[i := ?t])" using shape by (rule list_all_update) simp
    have 3: "list_ex is_read (ts[i := ?t]) \<longrightarrow> cache w' = cache w"
      using \<open>cache w' = cache w\<close> by simp
    have 6: "set_log (cache w')
               = set_log (cache w) @ replicate (length (filter is_settled (ts[i := ?t]))) ?cmd"
      unfolding c using sets .
    show ?thesis unfolding t by (rule write_invI [OF 1 2 3 ok calls 6])
  next
    case (AtDb j)
    then show ?thesis using here by simp
  next
    case (AtSet j user ttl)
    have j: "j = ident" "user = simulated_user ident" "ttl = 600"
      using here unfolding AtSet by simp_all
    have "is_write (ts ! i)" unfolding AtSet by simp
    then have quiet: "\<not> list_ex is_read ts" using rf True by simp
    let ?c = "with_entry (cache w') (cacheKey rt ident)
                (JSON_stringify rt (simulated_user ident)) 600"
    let ?t = "Settled (Inr (simulated_user ident))"
    have "step rt (AtSet ident (simulated_user ident) 600) w' = (?t, w'\<lparr>cache := ?c\<rparr>)"
      using ok by (simp add: redis_set_ex_def)
    then have st: "step rt (ts ! i) w' = (?t, w'\<lparr>cache := ?c\<rparr>)" unfolding AtSet j .
    have t: "turn rt i (ts, w') = (ts[i := ?t], w'\<lparr>cache := ?c\<rparr>)"
      using True st by (simp add: turn_def)
    have c: "length (filter is_settled (ts[i := ?t])) = Suc (length (filter is_settled ts))"
      using settled_update [OF True, of ?t] unfolding AtSet by simp
    have 1: "length (ts[i := ?t]) = n" using len by simp
    have 2: "list_all ?P (ts[i := ?t])" using shape by (rule list_all_update) simp
    have 3: "list_ex is_read (ts[i := ?t]) \<longrightarrow> cache (w'\<lparr>cache := ?c\<rparr>) = cache w"
    proof
      assume "list_ex is_read (ts[i := ?t])"
      then have "list_ex is_read ts" by (rule list_ex_update) simp
      then show "cache (w'\<lparr>cache := ?c\<rparr>) = cache w" using quiet by simp
    qed
    have 4: "set_fault (cache (w'\<lparr>cache := ?c\<rparr>)) = None"
      using ok by (simp add: with_entry_def)
    have 5: "db_calls (w'\<lparr>cache := ?c\<rparr>) = db_calls w" using calls by simp
    have 6: "set_log (cache (w'\<lparr>cache := ?c\<rparr>))
               = set_log (cache w) @ replicate (length (filter is_settled (ts[i := ?t]))) ?cmd"
      unfolding c using sets by (simp add: with_entry_def replicate_append_same)
    show ?thesis unfolding t by (rule write_invI [OF 1 2 3 4 5 6])
  next
    case (Settled r)
    have "step rt (ts ! i) w' = (ts ! i, w')" unfolding Settled by simp
    then have "turn rt i (ts, w') = (ts, w')"
      using True by (simp add: turn_def)
    then show ?thesis using inv by simp
  qed
qed

lemma write_inv_run:
  assumes "misses w (cacheKey rt ident)"
  shows "write_inv rt w ident n tw \<Longrightarrow> reads_first rt sched tw
         \<Longrightarrow> write_inv rt w ident n (run rt sched tw)"
proof (induction sched arbitrary: tw)
  case Nil
  then show ?case by simp
next
  case (Cons i sched)
  obtain ts w' where tw: "tw = (ts, w')" by (cases tw)
  have "write_inv rt w ident n (turn rt i tw)"
    using write_inv_turn [OF assms, of n ts w' i] Cons.prems by (simp add: tw)
  then show ?case using Cons.IH Cons.prems(2) by simp
qed

lemma write_inv_start:
  "set_fault (cache w) = None
   \<Longrightarrow> write_inv rt w ident n (replicate n (AtGet CacheAsideExample ident), w)"
  by (simp add: write_inv_def list_all_iff)

text \<open>Every caller of \<^verbatim>\<open>getUser\<close> is reading, has its fetch in flight, or holds an answer.\<close>

lemma caller_count:
  "list_all (\<lambda>t. case t of AtGet rd i \<Rightarrow> rd = GetUser \<and> i = ident
                       | AtDb i \<Rightarrow> i = ident
                       | AtSet i user ttl \<Rightarrow> i = ident \<and> ttl = 3600
                       | Settled r \<Rightarrow> True) ts
   \<Longrightarrow> length (filter is_read ts) + in_flight ts + length (outcomes ts) = length ts"
proof (induction ts)
  case Nil
  show ?case by (simp add: in_flight_def outcomes_def)
next
  case (Cons t ts)
  then have IH: "length (filter is_read ts) + in_flight ts + length (outcomes ts) = length ts"
    by simp
  show ?case
    using IH by (cases t) (simp_all add: in_flight_def outcomes_def)
qed

lemma all_settled: "list_all is_settled ts \<Longrightarrow> ts = map Settled (outcomes ts)"
proof (induction ts)
  case Nil
  show ?case by (simp add: outcomes_def)
next
  case (Cons t ts)
  then have "ts = map Settled (outcomes ts)" by simp
  then show ?case using Cons.prems by (cases t) (simp_all add: outcomes_def)
qed

lemma all_settled_length: "list_all is_settled ts \<Longrightarrow> length (outcomes ts) = length ts"
  using all_settled [of ts] by (metis length_map)

lemma all_settled_simulated:
  "list_all (\<lambda>t. case t of AtGet rd i \<Rightarrow> rd = CacheAsideExample \<and> i = ident
                       | AtDb i \<Rightarrow> False
                       | AtSet i user ttl \<Rightarrow> i = ident \<and> user = simulated_user ident \<and> ttl = 600
                       | Settled r \<Rightarrow> r = Inr (simulated_user ident)) ts
   \<Longrightarrow> list_all is_settled ts
   \<Longrightarrow> ts = replicate (length ts) (Settled (Inr (simulated_user ident)))
     \<and> length (filter is_settled ts) = length ts"
proof (induction ts)
  case Nil
  show ?case by simp
next
  case (Cons t ts)
  then have "ts = replicate (length ts) (Settled (Inr (simulated_user ident)))
     \<and> length (filter is_settled ts) = length ts" by simp
  then show ?case using Cons.prems by (cases t) simp_all
qed

text \<open>
  A round in which each of \<open>n\<close> callers at the same await takes one turn, the world going
  through \<open>W 0\<close>, \<open>W 1\<close>, \<dots>, \<open>W n\<close>.
\<close>

lemma replicate_update_next:
  "k < n \<Longrightarrow> (replicate k B @ replicate (n - k) A)[k := B]
             = replicate (Suc k) B @ replicate (n - Suc k) A"
proof -
  assume "k < n"
  then obtain d where d: "n - k = Suc d" by (cases "n - k") auto
  then have d': "n - Suc k = d" by simp
  show ?thesis
    by (simp add: d d' list_update_append replicate_app_Cons_same)
qed

lemma replicate_nth_next: "k < n \<Longrightarrow> (replicate k B @ replicate (n - k) A) ! k = A"
  by (simp add: nth_append)

lemma run_phase_from:
  assumes "\<And>j. k \<le> j \<Longrightarrow> j < n \<Longrightarrow> step rt A (W j) = (B, W (Suc j))" and "k \<le> n"
  shows "run rt [k..<n] (replicate k B @ replicate (n - k) A, W k) = (replicate n B, W n)"
  using assms
proof (induction "n - k" arbitrary: k)
  case 0
  then show ?case by simp
next
  case (Suc d)
  then have lt: "k < n" by simp
  have st: "step rt A (W k) = (B, W (Suc k))" using Suc.prems(1) lt by simp
  have "turn rt k (replicate k B @ replicate (n - k) A, W k)
          = (replicate (Suc k) B @ replicate (n - Suc k) A, W (Suc k))"
    using lt st
    by (simp add: turn_def replicate_nth_next replicate_update_next del: replicate_Suc)
  then have "run rt [k..<n] (replicate k B @ replicate (n - k) A, W k)
          = run rt [Suc k..<n] (replicate (Suc k) B @ replicate (n - Suc k) A, W (Suc k))"
    using lt by (simp add: upt_conv_Cons del: replicate_Suc)
  also have "\<dots> = (replicate n B, W n)"
    using Suc.hyps(1) [of "Suc k"] Suc.hyps(2) Suc.prems lt by simp
  finally show ?case .
qed

lemma all_read_then_miss:
  assumes "misses w (cacheKey rt ident)"
  shows "concurrent rt rd ident n [0..<n] w = (replicate n (after_miss rd ident), w)"
  using run_phase_from [of 0 n rt "AtGet rd ident" "\<lambda>j. w" "after_miss rd ident"]
        step_get_miss [OF assms]
  by (simp add: concurrent_def)

text \<open>
  C2, as stated, fails. Two callers of \<^verbatim>\<open>getUser\<close> for the same key against an empty
  cache: after both reads, both origin fetches are outstanding together, and when both
  have settled the database has been called twice. When the database answers the second
  call differently from the first, the two callers get different values.
\<close>

theorem two_callers_two_fetches_counterexample:
  "in_flight (fst (concurrent demo_runtime GetUser (JNum 1) 2 [0, 1] empty_store)) = 2
   \<and> fst (concurrent demo_runtime GetUser (JNum 1) 2 [0, 1, 0, 1, 0, 1] empty_store)
     = [Settled (Inr ada), Settled (Inr ada)]
   \<and> db_calls (snd (concurrent demo_runtime GetUser (JNum 1) 2 [0, 1, 0, 1, 0, 1] empty_store))
     = [JNum 1, JNum 1]
   \<and> fst (concurrent renaming_runtime GetUser (JNum 1) 2 [0, 1, 0, 1, 0, 1] empty_store)
     = [Settled (Inr ada), Settled (Inr grace)]
   \<and> ada \<noteq> grace"
  by (simp add: concurrent_def turn_def numeral_2_eq_2 empty_store_def demo_runtime_def
      renaming_runtime_def redis_get_def live_def redis_set_ex_def with_entry_def
      cacheKey_def in_flight_def ada_def grace_def Let_def)

text \<open>
  C2, amended. The readers do no coalescing. Let \<open>n\<close> callers fetch the same key together
  against a cache that misses and accepts writes. After the \<open>n\<close> reads, \<open>n\<close> origin
  fetches are in flight at once. In every interleaving in which each read is answered
  before any write: every caller is still reading, has a fetch of its own in flight, or
  holds the answer to one; the database has served exactly one call for each answer
  held, and the answers held are, one for one, the answers to those calls. So when all
  callers have settled, \<^verbatim>\<open>db.users.findById\<close> has been called \<open>n\<close> times, once per caller,
  and the callers' outcomes are the outcomes of those \<open>n\<close> calls, alike only if the
  database answered alike. \<^verbatim>\<open>cacheAsideExample\<close> likewise applies one \<^verbatim>\<open>SET\<close> per settled
  caller: \<open>n\<close> when all have settled, each with the simulated user.
\<close>

theorem every_caller_fetches:
  assumes "misses w (cacheKey rt ident)" and "set_fault (cache w) = None"
  shows "in_flight (fst (concurrent rt GetUser ident n [0..<n] w)) = n
   \<and> (reads_first rt sched (replicate n (AtGet GetUser ident), w) \<longrightarrow>
        length (filter is_read (fst (concurrent rt GetUser ident n sched w)))
          + in_flight (fst (concurrent rt GetUser ident n sched w))
          + length (outcomes (fst (concurrent rt GetUser ident n sched w))) = n
      \<and> db_calls (snd (concurrent rt GetUser ident n sched w))
          = db_calls w
            @ replicate (length (outcomes (fst (concurrent rt GetUser ident n sched w)))) ident
      \<and> mset (outcomes (fst (concurrent rt GetUser ident n sched w)))
          = mset (map (\<lambda>k. db_findById rt (db_calls w @ replicate k ident) ident)
                   [0..<length (outcomes (fst (concurrent rt GetUser ident n sched w)))])
      \<and> (list_all is_settled (fst (concurrent rt GetUser ident n sched w)) \<longrightarrow>
            fst (concurrent rt GetUser ident n sched w)
              = map Settled (outcomes (fst (concurrent rt GetUser ident n sched w)))
          \<and> length (outcomes (fst (concurrent rt GetUser ident n sched w))) = n))
   \<and> (reads_first rt sched (replicate n (AtGet CacheAsideExample ident), w) \<longrightarrow>
        set_log (cache (snd (concurrent rt CacheAsideExample ident n sched w)))
          = set_log (cache w)
            @ replicate
                (length (filter is_settled (fst (concurrent rt CacheAsideExample ident n sched w))))
                (cacheKey rt ident, JSON_stringify rt (simulated_user ident), 600)
      \<and> (list_all is_settled (fst (concurrent rt CacheAsideExample ident n sched w)) \<longrightarrow>
            fst (concurrent rt CacheAsideExample ident n sched w)
              = replicate n (Settled (Inr (simulated_user ident)))
          \<and> length (filter is_settled (fst (concurrent rt CacheAsideExample ident n sched w)))
              = n))"
proof -
  let ?f = "\<lambda>k. db_findById rt (db_calls w @ replicate k ident) ident"
  have flight: "in_flight (fst (concurrent rt GetUser ident n [0..<n] w)) = n"
    by (simp add: all_read_then_miss [OF assms(1)] in_flight_def)
  have fetching: "length (filter is_read ts) + in_flight ts + length (outcomes ts) = n
      \<and> db_calls w' = db_calls w @ replicate (length (outcomes ts)) ident
      \<and> mset (outcomes ts) = mset (map ?f [0..<length (outcomes ts)])
      \<and> (list_all is_settled ts \<longrightarrow>
            ts = map Settled (outcomes ts) \<and> length (outcomes ts) = n)"
    if rf: "reads_first rt sched (replicate n (AtGet GetUser ident), w)"
      and tw: "concurrent rt GetUser ident n sched w = (ts, w')"
    for ts w'
  proof -
    have "fetch_inv rt w ident n (run rt sched (replicate n (AtGet GetUser ident), w))"
      using fetch_inv_run [OF assms(1) fetch_inv_start [OF assms(2)] rf] .
    then have inv: "fetch_inv rt w ident n (ts, w')"
      using tw by (simp add: concurrent_def)
    have len: "length ts = n"
      and shape: "list_all (\<lambda>t. case t of AtGet rd i \<Rightarrow> rd = GetUser \<and> i = ident
                       | AtDb i \<Rightarrow> i = ident
                       | AtSet i user ttl \<Rightarrow> i = ident \<and> ttl = 3600
                       | Settled r \<Rightarrow> True) ts"
      and calls: "db_calls w' = db_calls w @ replicate (length (outcomes ts)) ident"
      and answers: "mset (outcomes ts) = mset (map ?f [0..<length (outcomes ts)])"
      using inv unfolding fetch_inv_def by simp_all
    have count: "length (filter is_read ts) + in_flight ts + length (outcomes ts) = n"
      using caller_count [OF shape] len by simp
    have fin: "ts = map Settled (outcomes ts) \<and> length (outcomes ts) = n"
      if "list_all is_settled ts"
      using all_settled [OF that] all_settled_length [OF that] len by simp
    show ?thesis using count calls answers fin by blast
  qed
  have writing: "set_log (cache w')
          = set_log (cache w)
            @ replicate (length (filter is_settled ts))
                (cacheKey rt ident, JSON_stringify rt (simulated_user ident), 600)
      \<and> (list_all is_settled ts \<longrightarrow>
            ts = replicate n (Settled (Inr (simulated_user ident)))
          \<and> length (filter is_settled ts) = n)"
    if rf: "reads_first rt sched (replicate n (AtGet CacheAsideExample ident), w)"
      and tw: "concurrent rt CacheAsideExample ident n sched w = (ts, w')"
    for ts w'
  proof -
    have "write_inv rt w ident n
            (run rt sched (replicate n (AtGet CacheAsideExample ident), w))"
      using write_inv_run [OF assms(1) write_inv_start [OF assms(2)] rf] .
    then have inv: "write_inv rt w ident n (ts, w')"
      using tw by (simp add: concurrent_def)
    have len: "length ts = n"
      and shape: "list_all (\<lambda>t. case t of AtGet rd i \<Rightarrow> rd = CacheAsideExample \<and> i = ident
                       | AtDb i \<Rightarrow> False
                       | AtSet i user ttl \<Rightarrow> i = ident \<and> user = simulated_user ident \<and> ttl = 600
                       | Settled r \<Rightarrow> r = Inr (simulated_user ident)) ts"
      and sets: "set_log (cache w')
          = set_log (cache w)
            @ replicate (length (filter is_settled ts))
                (cacheKey rt ident, JSON_stringify rt (simulated_user ident), 600)"
      using inv unfolding write_inv_def by simp_all
    have fin: "ts = replicate n (Settled (Inr (simulated_user ident)))
          \<and> length (filter is_settled ts) = n"
      if "list_all is_settled ts"
      using all_settled_simulated [OF shape that] len by simp
    show ?thesis using sets fin by blast
  qed
  show ?thesis
    using flight
      fetching [of "fst (concurrent rt GetUser ident n sched w)"
                   "snd (concurrent rt GetUser ident n sched w)"]
      writing [of "fst (concurrent rt CacheAsideExample ident n sched w)"
                  "snd (concurrent rt CacheAsideExample ident n sched w)"]
    by simp
qed

text \<open>
  The amended statement at two callers and the schedule in which the first caller has
  fetched and written before the second caller fetches.
\<close>

theorem every_caller_fetches_witness:
  "misses empty_store (cacheKey demo_runtime (JNum 1))
   \<and> set_fault (cache empty_store) = None
   \<and> reads_first demo_runtime [0, 1, 0, 0, 1, 1] (replicate 2 (AtGet GetUser (JNum 1)), empty_store)
   \<and> list_all is_settled
        (fst (concurrent demo_runtime GetUser (JNum 1) 2 [0, 1, 0, 0, 1, 1] empty_store))
   \<and> length (outcomes
        (fst (concurrent demo_runtime GetUser (JNum 1) 2 [0, 1, 0, 0, 1, 1] empty_store))) = 2
   \<and> db_calls (snd (concurrent demo_runtime GetUser (JNum 1) 2 [0, 1, 0, 0, 1, 1] empty_store))
       = [JNum 1, JNum 1]"
proof -
  let ?TS = "fst (concurrent demo_runtime GetUser (JNum 1) 2 [0, 1, 0, 0, 1, 1] empty_store)"
  let ?W = "snd (concurrent demo_runtime GetUser (JNum 1) 2 [0, 1, 0, 0, 1, 1] empty_store)"
  have m: "misses empty_store (cacheKey demo_runtime (JNum 1))"
    by (simp add: misses_def empty_store_def redis_get_def live_def truthy_def)
  have f: "set_fault (cache empty_store) = None" by (simp add: empty_store_def)
  have rf: "reads_first demo_runtime [0, 1, 0, 0, 1, 1]
              (replicate 2 (AtGet GetUser (JNum 1)), empty_store)"
    by (simp add: turn_def numeral_2_eq_2 empty_store_def demo_runtime_def redis_get_def
        live_def redis_set_ex_def with_entry_def cacheKey_def Let_def)
  have st: "list_all is_settled ?TS"
    by (simp add: concurrent_def turn_def numeral_2_eq_2 empty_store_def demo_runtime_def
        redis_get_def live_def redis_set_ex_def with_entry_def cacheKey_def Let_def)
  have "length (outcomes ?TS) = 2
        \<and> db_calls ?W = db_calls empty_store @ replicate (length (outcomes ?TS)) (JNum 1)"
    using every_caller_fetches [OF m f, of 2 "[0, 1, 0, 0, 1, 1]"] rf st by blast
  then have "length (outcomes ?TS) = 2 \<and> db_calls ?W = [JNum 1, JNum 1]"
    by (simp add: empty_store_def numeral_2_eq_2)
  then show ?thesis using m f rf st by simp
qed

end
